theory Spec2Isabelle
  imports Complex_Main
begin

section \<open>Data model\<close>

text \<open>
  The snap-and-dock service (\<^verbatim>\<open>SnapService\<close>) keeps a registry of windows and of
  groups. Windows and groups are objects compared by reference; here a reference is a
  natural number and the objects live in two heaps that are part of the service state.
  JavaScript numbers are taken as real numbers: rounding, infinities and NaN are outside
  this development.
\<close>

type_synonym wid = nat
type_synonym gid = nat

text \<open>\<^verbatim>\<open>Point {x, y}\<close>: the fields are called \<open>px\<close> and \<open>py\<close> here.\<close>

record Point =
  px :: real
  py :: real

record Rectangle =
  center :: Point
  halfSize :: Point

record WindowIdentity =
  uuid :: string
  name :: string

text \<open>
  Modelled from the spec: \<^verbatim>\<open>RectUtils\<close> is missing. \<^verbatim>\<open>MeasureResult\<close> is the result of
  \<^verbatim>\<open>RectUtils.distance\<close>, with the fields \<^verbatim>\<open>x\<close>, \<^verbatim>\<open>y\<close>, \<^verbatim>\<open>min\<close> and
  \<^verbatim>\<open>minAbs\<close> that \<^verbatim>\<open>calculateOffset\<close> reads. The distance function itself is a
  parameter of every definition that calls it.
\<close>

record MeasureResult =
  mr_x :: real
  mr_y :: real
  mr_min :: real
  mr_minAbs :: real

type_synonym distance_fn = "Rectangle \<Rightarrow> Rectangle \<Rightarrow> MeasureResult"

text \<open>
  Modelled from the spec: the \<^verbatim>\<open>SnapWindow\<close> class is missing. A window object is given
  by what its three getters return; the window state is reduced to its rectangle.
\<close>

record SnapWindow =
  getIdentity :: WindowIdentity
  getGroup :: gid
  getState :: Rectangle

text \<open>The handlers that \<^verbatim>\<open>addGroup\<close> attaches to the signals of a group.\<close>

datatype handler =
    validateGroup_h
  | snapGroup_h
  | applySnapTarget_h
  | onWindowRemovedFromGroup_h
  | sendWindowAddedMessage_h

text \<open>
  Modelled from the spec: the \<^verbatim>\<open>SnapGroup\<close> class is missing. A group object has its
  ordered window list and the listener list of each of its five signals. The spec calls
  \<^verbatim>\<open>group.windows\<close> a read-only view of the ordered sequence of windows: a loop over it
  goes through the windows that the group had when the loop began. \<^verbatim>\<open>group.length\<close> is
  the length of that list.
\<close>

record SnapGroup =
  group_windows :: "wid list"
  onModified :: "handler list"
  onTransform :: "handler list"
  onCommit :: "handler list"
  onWindowRemoved :: "handler list"
  onWindowAdded :: "handler list"

text \<open>
  Modelled from the spec: \<^verbatim>\<open>Resolver.ts\<close> is missing. A target is classified VALID or
  INVALID; \<^verbatim>\<open>SnapTarget\<close> has the fields that \<^verbatim>\<open>applySnapTarget\<close> reads, the half
  size being optional.
\<close>

datatype eSnapValidity = VALID | INVALID


record SnapTarget =
  target_group :: gid
  activeWindow :: wid
  snapOffset :: Point
  target_halfSize :: "Point option"
  validity :: eSnapValidity

text \<open>What the service's own public signals have emitted to outside listeners.\<close>

datatype message = WindowAdded gid wid | WindowRemoved gid wid

text \<open>
  The service: the two registries \<^verbatim>\<open>this.windows\<close> and \<^verbatim>\<open>this.groups\<close>, the two
  heaps, the next unused group reference, the last arguments given to
  \<^verbatim>\<open>this.view.update\<close>, and the messages emitted so far. Console output is left out.
\<close>

record SnapService =
  windows :: "wid list"
  groups :: "gid list"
  window_heap :: "wid \<Rightarrow> SnapWindow"
  group_heap :: "gid \<Rightarrow> SnapGroup"
  next_group :: gid
  view :: "gid option \<times> SnapTarget option"
  emitted :: "message list"

definition UNDOCK_MOVE_SCALE :: real where
  "UNDOCK_MOVE_SCALE = 30"

abbreviation group_length :: "SnapService \<Rightarrow> gid \<Rightarrow> nat" where
  "group_length s g \<equiv> length (group_windows (group_heap s g))"

section \<open>Signals and group bookkeeping\<close>

text \<open>
  Modelled from the spec: the \<^verbatim>\<open>Signal2\<close> class is missing. A signal holds its
  listeners in the order they were added, \<^verbatim>\<open>add\<close> appends one, \<^verbatim>\<open>remove\<close> takes
  one occurrence out, and \<^verbatim>\<open>emit\<close> calls every listener synchronously.
\<close>

definition signal_add :: "handler \<Rightarrow> handler list \<Rightarrow> handler list" where
  "signal_add h hs = hs @ [h]"

text \<open>Modelled from the spec: \<^verbatim>\<open>Signal2.remove\<close>, as said above.\<close>

definition signal_remove :: "handler \<Rightarrow> handler list \<Rightarrow> handler list" where
  "signal_remove h hs = remove1 h hs"

text \<open>
  Modelled from the spec: the \<^verbatim>\<open>SnapGroup\<close> constructor is missing. A new group has
  no windows and no listeners.
\<close>

definition new_SnapGroup :: SnapGroup where
  "new_SnapGroup = \<lparr>group_windows = [], onModified = [], onTransform = [], onCommit = [],
     onWindowRemoved = [], onWindowAdded = []\<rparr>"

definition addGroup :: "SnapService \<Rightarrow> gid \<times> SnapService" where
  "addGroup s =
     (let g = next_group s;
          G = new_SnapGroup;
          G = G\<lparr>onModified := signal_add validateGroup_h (onModified G)\<rparr>;
          G = G\<lparr>onTransform := signal_add snapGroup_h (onTransform G)\<rparr>;
          G = G\<lparr>onCommit := signal_add applySnapTarget_h (onCommit G)\<rparr>;
          G = G\<lparr>onWindowRemoved := signal_add onWindowRemovedFromGroup_h (onWindowRemoved G)\<rparr>;
          G = G\<lparr>onWindowAdded := signal_add sendWindowAddedMessage_h (onWindowAdded G)\<rparr>
      in (g, s\<lparr>group_heap := (group_heap s)(g := G),
               next_group := Suc g,
               groups := groups s @ [g]\<rparr>))"

text \<open>
  \<^verbatim>\<open>indexOf\<close> finds the first occurrence and \<^verbatim>\<open>splice(index, 1)\<close> deletes it, so
  the registry loses one occurrence of the group, which is \<open>remove1\<close>.
\<close>

definition removeGroup :: "gid \<Rightarrow> SnapService \<Rightarrow> SnapService" where
  "removeGroup g s =
     (if group_length s g = 0 \<and> g \<in> set (groups s) then
        let G = group_heap s g;
            G = G\<lparr>onModified := signal_remove validateGroup_h (onModified G)\<rparr>;
            G = G\<lparr>onTransform := signal_remove snapGroup_h (onTransform G)\<rparr>;
            G = G\<lparr>onCommit := signal_remove applySnapTarget_h (onCommit G)\<rparr>;
            G = G\<lparr>onWindowRemoved := signal_remove onWindowRemovedFromGroup_h (onWindowRemoved G)\<rparr>;
            G = G\<lparr>onWindowAdded := signal_remove sendWindowAddedMessage_h (onWindowAdded G)\<rparr>
        in s\<lparr>group_heap := (group_heap s)(g := G), groups := remove1 g (groups s)\<rparr>
      else s)"

definition sendWindowAddedMessage :: "gid \<Rightarrow> wid \<Rightarrow> SnapService \<Rightarrow> SnapService" where
  "sendWindowAddedMessage g w s = s\<lparr>emitted := emitted s @ [WindowAdded g w]\<rparr>"

definition sendWindowRemovedMessage :: "gid \<Rightarrow> wid \<Rightarrow> SnapService \<Rightarrow> SnapService" where
  "sendWindowRemovedMessage g w s = s\<lparr>emitted := emitted s @ [WindowRemoved g w]\<rparr>"

definition onWindowRemovedFromGroup :: "gid \<Rightarrow> wid \<Rightarrow> SnapService \<Rightarrow> SnapService" where
  "onWindowRemovedFromGroup g w s =
     sendWindowRemovedMessage g w (if group_length s g = 0 then removeGroup g s else s)"

text \<open>\<^verbatim>\<open>validateGroup\<close> has an empty body in the source.\<close>

definition validateGroup :: "gid \<Rightarrow> wid \<Rightarrow> SnapService \<Rightarrow> SnapService" where
  "validateGroup g w s = s"

text \<open>
  Modelled from the spec: \<^verbatim>\<open>Signal2.emit\<close>, as said above. Calling one listener of a
  signal that carries a group and a window runs the handler of the service that the
  listener stands for. The transform and commit handlers take other arguments and are
  never reached by such a signal.
\<close>

fun call_handler :: "handler \<Rightarrow> gid \<Rightarrow> wid \<Rightarrow> SnapService \<Rightarrow> SnapService" where
  "call_handler validateGroup_h g w s = validateGroup g w s"
| "call_handler onWindowRemovedFromGroup_h g w s = onWindowRemovedFromGroup g w s"
| "call_handler sendWindowAddedMessage_h g w s = sendWindowAddedMessage g w s"
| "call_handler snapGroup_h g w s = s"
| "call_handler applySnapTarget_h g w s = s"

text \<open>Modelled from the spec: \<^verbatim>\<open>Signal2.emit\<close> calls the listeners in their order.\<close>

definition emit :: "handler list \<Rightarrow> gid \<Rightarrow> wid \<Rightarrow> SnapService \<Rightarrow> SnapService" where
  "emit hs g w s = fold (\<lambda>h. call_handler h g w) hs s"

section \<open>Window operations\<close>

text \<open>
  Modelled from the spec: \<^verbatim>\<open>SnapWindow.setGroup\<close> and \<^verbatim>\<open>SnapWindow.offsetBy\<close> are
  missing. The spec says of
  \<^verbatim>\<open>setGroup(newGroup, offset?, halfSize?)\<close> that it detaches the window from its current
  group, triggering that group's "window removed" notification, and attaches it to
  \<^verbatim>\<open>newGroup\<close>, triggering its "window added" notification; that a given offset or half
  size translates or resizes the window's rectangle as part of the same operation; and
  that both notifications fire only after the window's back-reference and the group's
  member list are updated. Of \<^verbatim>\<open>offsetBy(delta)\<close> it says that it applies a pure
  translation to the window's current rectangle.
\<close>

definition translate :: "Point \<Rightarrow> Point \<Rightarrow> Point" where
  "translate p d = \<lparr>px = px p + px d, py = py p + py d\<rparr>"

text \<open>
  Modelled from the spec: the change of a rectangle by an optional offset and an optional
  half size: the centre is translated by the offset, the half size is replaced.
\<close>

definition transformState :: "Point option \<Rightarrow> Point option \<Rightarrow> Rectangle \<Rightarrow> Rectangle" where
  "transformState offset newHalfSize r =
     (let r = (case offset of None \<Rightarrow> r | Some d \<Rightarrow> r\<lparr>center := translate (center r) d\<rparr>)
      in (case newHalfSize of None \<Rightarrow> r | Some h \<Rightarrow> r\<lparr>halfSize := h\<rparr>))"

text \<open>
  Modelled from the spec: the first state update of \<^verbatim>\<open>setGroup\<close>. Before the "window
  removed" notification the window refers to the new group, has its new rectangle and is
  off the old group's list.
\<close>

definition unlink_window ::
  "wid \<Rightarrow> gid \<Rightarrow> Point option \<Rightarrow> Point option \<Rightarrow> SnapService \<Rightarrow> SnapService" where
  "unlink_window w newGroup offset newHalfSize s =
     (let W = window_heap s w;
          oldGroup = getGroup W;
          Old = group_heap s oldGroup
      in s\<lparr>window_heap := (window_heap s)
             (w := W\<lparr>getGroup := newGroup,
                     getState := transformState offset newHalfSize (getState W)\<rparr>),
           group_heap := (group_heap s)
             (oldGroup := Old\<lparr>group_windows := remove1 w (group_windows Old)\<rparr>)\<rparr>)"

text \<open>
  Modelled from the spec: the second state update of \<^verbatim>\<open>setGroup\<close>. Before the "window
  added" notification the window is at the end of the new group's list.
\<close>

definition link_window :: "wid \<Rightarrow> gid \<Rightarrow> SnapService \<Rightarrow> SnapService" where
  "link_window w newGroup s =
     (let New = group_heap s newGroup
      in s\<lparr>group_heap := (group_heap s)
             (newGroup := New\<lparr>group_windows := group_windows New @ [w]\<rparr>)\<rparr>)"

text \<open>
  Modelled from the spec: \<^verbatim>\<open>SnapWindow.setGroup\<close>, which is missing: detach and notify
  the old group, then attach and notify the new group.
\<close>

definition setGroup ::
  "wid \<Rightarrow> gid \<Rightarrow> Point option \<Rightarrow> Point option \<Rightarrow> SnapService \<Rightarrow> SnapService" where
  "setGroup w newGroup offset newHalfSize s =
     (let oldGroup = getGroup (window_heap s w);
          s = unlink_window w newGroup offset newHalfSize s;
          s = emit (onWindowRemoved (group_heap s oldGroup)) oldGroup w s;
          s = link_window w newGroup s
      in emit (onWindowAdded (group_heap s newGroup)) newGroup w s)"

text \<open>
  Modelled from the spec: \<^verbatim>\<open>SnapWindow.offsetBy\<close>, which is missing: a pure translation
  of the window's rectangle.
\<close>

definition offsetBy :: "wid \<Rightarrow> Point \<Rightarrow> SnapService \<Rightarrow> SnapService" where
  "offsetBy w delta s =
     (let W = window_heap s w
      in s\<lparr>window_heap := (window_heap s)
             (w := W\<lparr>getState := transformState (Some delta) None (getState W)\<rparr>)\<rparr>)"

section \<open>The repulsion offset\<close>

text \<open>
  One round of the loop of \<^verbatim>\<open>calculateOffset\<close>: \<open>w\<close> is the window being unsnapped,
  \<open>gw\<close> the member of its group that the loop is at, \<open>totalOffset\<close> the running offset.
  \<^verbatim>\<open>Math.sign\<close> and \<^verbatim>\<open>Math.abs\<close> are \<open>sgn\<close> and \<open>abs\<close>.
\<close>

definition calculateOffset_step ::
  "distance_fn \<Rightarrow> SnapService \<Rightarrow> wid \<Rightarrow> wid \<Rightarrow> Point \<Rightarrow> Point" where
  "calculateOffset_step distanceFn s w gw totalOffset =
     (if gw \<noteq> w then
        let ws = getState (window_heap s w);
            gs = getState (window_heap s gw);
            distance = distanceFn ws gs
        in if mr_minAbs distance = 0 \<and> mr_min distance < 0 then
             let totalOffset = totalOffset\<lparr>px := px totalOffset
                           + sgn ((px (center ws) - px (center gs)) * \<bar>mr_y distance\<bar>)\<rparr>;
                 totalOffset = totalOffset\<lparr>py := py totalOffset
                           + sgn ((py (center ws) - py (center gs)) * \<bar>mr_x distance\<bar>)\<rparr>
             in totalOffset
           else totalOffset
      else totalOffset)"

definition calculateOffset :: "distance_fn \<Rightarrow> SnapService \<Rightarrow> wid \<Rightarrow> Point" where
  "calculateOffset distanceFn s w =
     fold (calculateOffset_step distanceFn s w)
       (group_windows (group_heap s (getGroup (window_heap s w))))
       \<lparr>px = 0, py = 0\<rparr>"

section \<open>Undock and explode\<close>

definition identity_matches :: "WindowIdentity \<Rightarrow> SnapService \<Rightarrow> wid \<Rightarrow> bool" where
  "identity_matches target s w =
     (let identity = getIdentity (window_heap s w)
      in uuid target = uuid identity \<and> name target = name identity)"

definition undock :: "distance_fn \<Rightarrow> WindowIdentity \<Rightarrow> SnapService \<Rightarrow> SnapService" where
  "undock distanceFn target s =
     (case find (identity_matches target s) (windows s) of
        None \<Rightarrow> s
      | Some w \<Rightarrow>
          let g = getGroup (window_heap s w);
              offset = calculateOffset distanceFn s w;
              (newGroup, s) = addGroup s;
              s = setGroup w newGroup None None s;
              s = offsetBy w
                    \<lparr>px = sgn (if px offset \<noteq> 0 then px offset else 1) * UNDOCK_MOVE_SCALE,
                     py = sgn (if py offset \<noteq> 0 then py offset else 1) * UNDOCK_MOVE_SCALE\<rparr> s
          in emit (onModified (group_heap s g)) g w s)"

text \<open>
  The second loop of \<^verbatim>\<open>explodeGroup\<close>, one round: the window at \<open>index\<close> and the
  offset stored for it at the same index.
\<close>

definition explode_window :: "wid \<times> Point \<Rightarrow> SnapService \<Rightarrow> SnapService" where
  "explode_window wo s =
     (let (w, offset) = wo;
          (newGroup, s) = addGroup s;
          s = setGroup w newGroup None None s
      in offsetBy w
           \<lparr>px = sgn (px offset) * 0.5 * UNDOCK_MOVE_SCALE,
            py = sgn (py offset) * 0.5 * UNDOCK_MOVE_SCALE\<rparr> s)"

definition explodeGroup :: "distance_fn \<Rightarrow> WindowIdentity \<Rightarrow> SnapService \<Rightarrow> SnapService" where
  "explodeGroup distanceFn targetWindow s =
     (case find (\<lambda>g. length (filter (identity_matches targetWindow s)
                                (group_windows (group_heap s g))) > 0) (groups s) of
        None \<Rightarrow> s
      | Some g \<Rightarrow>
          if group_length s g > 1 then
            let ws = group_windows (group_heap s g);
                offsets = map (calculateOffset distanceFn s) ws
            in fold explode_window (zip ws offsets) s
          else s)"

section \<open>Drag and commit\<close>

text \<open>
  \<^verbatim>\<open>Resolver.getSnapTarget\<close> is missing and is a parameter: it is given the state (for
  the objects behind the references), the registry of groups and the active group.
\<close>

type_synonym resolver_fn = "SnapService \<Rightarrow> gid list \<Rightarrow> gid \<Rightarrow> SnapTarget option"

definition snapGroup :: "resolver_fn \<Rightarrow> gid \<Rightarrow> SnapService \<Rightarrow> SnapService" where
  "snapGroup getSnapTarget activeGroup s =
     (let snapTarget = getSnapTarget s (groups s) activeGroup
      in s\<lparr>view := (Some activeGroup, snapTarget)\<rparr>)"

text \<open>
  One round of the \<^verbatim>\<open>forEach\<close> of \<^verbatim>\<open>applySnapTarget\<close>. The flag \<open>foo\<close> below is the
  property \<^verbatim>\<open>foo\<close> of the global \<^verbatim>\<open>window\<close> object that the condition of the
  commit reads.
\<close>

definition apply_to_window :: "SnapTarget \<Rightarrow> wid \<Rightarrow> SnapService \<Rightarrow> SnapService" where
  "apply_to_window snapTarget w s =
     (if w = activeWindow snapTarget \<and> target_halfSize snapTarget \<noteq> None then
        setGroup w (target_group snapTarget) (Some (snapOffset snapTarget))
          (target_halfSize snapTarget) s
      else
        setGroup w (target_group snapTarget) (Some (snapOffset snapTarget)) None s)"

definition applySnapTarget ::
  "resolver_fn \<Rightarrow> bool \<Rightarrow> gid \<Rightarrow> SnapService \<Rightarrow> SnapService" where
  "applySnapTarget getSnapTarget foo activeGroup s =
     (let s = (case getSnapTarget s (groups s) activeGroup of
                 None \<Rightarrow> s
               | Some snapTarget \<Rightarrow>
                   if validity snapTarget = VALID \<and> \<not> foo then
                     fold (apply_to_window snapTarget)
                       (group_windows (group_heap s activeGroup)) s
                   else s)
      in s\<lparr>view := (None, None)\<rparr>)"

section \<open>Admission and close of a window\<close>

text \<open>
  Modelled from the spec: the \<^verbatim>\<open>SnapWindow\<close> constructor is missing. The spec says that
  admission creates a fresh singleton group for every newly observed window: the new
  window object \<open>w\<close> has the identity and the state it is given, refers to its group, and
  the group lists it and says so to its listeners.
\<close>

definition new_SnapWindow ::
  "wid \<Rightarrow> gid \<Rightarrow> WindowIdentity \<Rightarrow> Rectangle \<Rightarrow> SnapService \<Rightarrow> SnapService" where
  "new_SnapWindow w g identity st s =
     (let s = s\<lparr>window_heap := (window_heap s)
                 (w := \<lparr>getIdentity = identity, getGroup = g, getState = st\<rparr>)\<rparr>;
          s = link_window w g s
      in emit (onWindowAdded (group_heap s g)) g w s)"

text \<open>
  \<^verbatim>\<open>addWindow\<close>, from the moment the state of the window has arrived: \<open>w\<close> is the
  reference of the object that \<^verbatim>\<open>new SnapWindow\<close> creates. The close signal of the window
  is not modelled; \<open>close_window\<close> below stands for its emission.
\<close>

definition addWindow ::
  "wid \<Rightarrow> WindowIdentity \<Rightarrow> Rectangle \<Rightarrow> SnapService \<Rightarrow> SnapService" where
  "addWindow w identity st s =
     (let (g, s) = addGroup s;
          s = new_SnapWindow w g identity st s
      in s\<lparr>windows := windows s @ [w]\<rparr>)"

definition onWindowClosed :: "wid \<Rightarrow> SnapService \<Rightarrow> SnapService" where
  "onWindowClosed snapWindow s =
     (if snapWindow \<in> set (windows s) then
        let s = s\<lparr>windows := remove1 snapWindow (windows s)\<rparr>
        in validateGroup (getGroup (window_heap s snapWindow)) snapWindow s
      else s)"

text \<open>
  Modelled from the spec: what a \<^verbatim>\<open>SnapGroup\<close> does when one of its windows closes is
  missing. The source says at \<^verbatim>\<open>onWindowClosed\<close> that the group listens to the close of
  each of its windows and removes the window from itself; the spec says that every
  removal is followed by the "window removed" notification.
\<close>

definition SnapGroup_onWindowClosed :: "wid \<Rightarrow> SnapService \<Rightarrow> SnapService" where
  "SnapGroup_onWindowClosed w s =
     (let g = getGroup (window_heap s w);
          G = group_heap s g;
          s = s\<lparr>group_heap := (group_heap s)
                 (g := G\<lparr>group_windows := remove1 w (group_windows G)\<rparr>)\<rparr>
      in emit (onWindowRemoved (group_heap s g)) g w s)"

text \<open>The close of a window: its group hears of it, then the service.\<close>

definition close_window :: "wid \<Rightarrow> SnapService \<Rightarrow> SnapService" where
  "close_window w s = onWindowClosed w (SnapGroup_onWindowClosed w s)"

section \<open>The preview rectangle\<close>

text \<open>
  \<^verbatim>\<open>Preview.ts\<close>. A previewable target is a snap target or a tab target, told apart by
  its \<^verbatim>\<open>type\<close> field. Of a snap target the preview reads the current state of the
  active window, the offset, the optional half size and the \<^verbatim>\<open>valid\<close> flag; of a tab
  target the drop area and the flag.
\<close>

record PreviewSnapTarget =
  currentState :: Rectangle
  offset :: Point
  snap_halfSize :: "Point option"
  snap_valid :: bool

record PreviewTabTarget =
  dropArea :: Rectangle
  tab_valid :: bool

datatype PreviewableTarget = SNAP PreviewSnapTarget | TAB PreviewTabTarget

text \<open>\<^verbatim>\<open>target.halfSize || prevHalfSize\<close>: an object is truthy, an absent one is not.\<close>

fun generatePreviewRect :: "PreviewableTarget \<Rightarrow> Rectangle" where
  "generatePreviewRect (SNAP target) =
     (let activeState = currentState target;
          prevHalfSize = halfSize activeState;
          hs = (case snap_halfSize target of Some h \<Rightarrow> h | None \<Rightarrow> prevHalfSize);
          c = \<lparr>px = px (center activeState) + px (offset target) + (px hs - px prevHalfSize),
               py = py (center activeState) + py (offset target) + (py hs - py prevHalfSize)\<rparr>
      in \<lparr>center = c, halfSize = hs\<rparr>)"
| "generatePreviewRect (TAB target) = dropArea target"

text \<open>The four arguments that \<^verbatim>\<open>positionPreview\<close> gives to \<^verbatim>\<open>setBounds\<close>.\<close>

definition positionPreview :: "PreviewableTarget \<Rightarrow> real \<times> real \<times> real \<times> real" where
  "positionPreview target =
     (let previewRect = generatePreviewRect target
      in (px (center previewRect) - px (halfSize previewRect),
          py (center previewRect) - py (halfSize previewRect),
          px (halfSize previewRect) * 2,
          py (halfSize previewRect) * 2))"

datatype PreviewType = snap | tab
datatype Validity = Validity_VALID | Validity_INVALID

text \<open>
  The preview keeps one window per target type and validity. Of each the model keeps the
  bounds last set; \<^verbatim>\<open>_activeWindowPreview\<close> is the key of the window now showing.
  Styles and opacity are left out.
\<close>

record Preview =
  previewBounds :: "PreviewType \<times> Validity \<Rightarrow> real \<times> real \<times> real \<times> real"
  activeWindowPreview :: "(PreviewType \<times> Validity) option"

definition target_valid :: "PreviewableTarget \<Rightarrow> bool" where
  "target_valid target = (case target of SNAP t \<Rightarrow> snap_valid t | TAB t \<Rightarrow> tab_valid t)"

definition target_type :: "PreviewableTarget \<Rightarrow> PreviewType" where
  "target_type target = (case target of SNAP t \<Rightarrow> snap | TAB t \<Rightarrow> tab)"

definition hide :: "Preview \<Rightarrow> Preview" where
  "hide p = (if activeWindowPreview p \<noteq> None then p\<lparr>activeWindowPreview := None\<rparr> else p)"

definition show_preview :: "PreviewableTarget \<Rightarrow> Preview \<Rightarrow> Preview" where
  "show_preview target p =
     (let valid = (if target_valid target then Validity_VALID else Validity_INVALID);
          previewType = target_type target;
          previewWindow = (previewType, valid);
          p = p\<lparr>previewBounds := (previewBounds p)(previewWindow := positionPreview target)\<rparr>
      in if Some previewWindow \<noteq> activeWindowPreview p
         then (hide p)\<lparr>activeWindowPreview := Some previewWindow\<rparr>
         else p)"

section \<open>Example state\<close>

text \<open>
  A registry with four windows of half size 10 by 10: windows 0 and 1 stand side by
  side (centres 20 apart on the x axis) in group 0, window 3 is in group 0 too but far
  from both, and window 2 is alone in group 1.
\<close>

definition wired :: "wid list \<Rightarrow> SnapGroup" where
  "wired ws = \<lparr>group_windows = ws, onModified = [validateGroup_h],
     onTransform = [snapGroup_h], onCommit = [applySnapTarget_h],
     onWindowRemoved = [onWindowRemovedFromGroup_h],
     onWindowAdded = [sendWindowAddedMessage_h]\<rparr>"

definition example_window :: "string \<Rightarrow> gid \<Rightarrow> real \<Rightarrow> real \<Rightarrow> SnapWindow" where
  "example_window n g cx cy = \<lparr>getIdentity = \<lparr>uuid = ''app'', name = n\<rparr>, getGroup = g,
     getState = \<lparr>center = \<lparr>px = cx, py = cy\<rparr>, halfSize = \<lparr>px = 10, py = 10\<rparr>\<rparr>\<rparr>"

definition example_service :: SnapService where
  "example_service = \<lparr>windows = [0, 1, 2, 3], groups = [0, 1],
     window_heap = (\<lambda>_. example_window ''none'' 0 0 0)
       (0 := example_window ''a'' 0 0 0, 1 := example_window ''b'' 0 20 0,
        2 := example_window ''c'' 1 100 100, 3 := example_window ''d'' 0 0 200),
     group_heap = (\<lambda>_. new_SnapGroup)(0 := wired [0, 1, 3], 1 := wired [2]),
     next_group = 2, view = (None, None), emitted = []\<rparr>"

text \<open>A service that has just been constructed: both registries are empty.\<close>

definition example_start :: SnapService where
  "example_start = \<lparr>windows = [], groups = [],
     window_heap = (\<lambda>_. example_window ''none'' 0 0 0),
     group_heap = (\<lambda>_. new_SnapGroup),
     next_group = 0, view = (None, None), emitted = []\<rparr>"

text \<open>
  A distance function for the examples: on each axis the gap between the facing edges
  (negative when the rectangles overlap on that axis, zero when they touch), \<open>min\<close>
  the smaller gap and \<open>minAbs\<close> the smaller absolute gap, so that the guard
  \<^verbatim>\<open>minAbs === 0 && min < 0\<close> of \<^verbatim>\<open>calculateOffset\<close> holds of two rectangles that touch on
  one axis and overlap on the other.
\<close>

definition example_distance :: distance_fn where
  "example_distance a b =
     (let dx = \<bar>px (center a) - px (center b)\<bar> - (px (halfSize a) + px (halfSize b));
          dy = \<bar>py (center a) - py (center b)\<bar> - (py (halfSize a) + py (halfSize b))
      in \<lparr>mr_x = dx, mr_y = dy, mr_min = min dx dy, mr_minAbs = min \<bar>dx\<bar> \<bar>dy\<bar>\<rparr>)"

section \<open>Predicates used in the statements\<close>

text \<open>
  The guard of \<^verbatim>\<open>calculateOffset\<close>: \<open>v\<close> is another window than \<open>w\<close> and the
  measured distance between the two has \<^verbatim>\<open>minAbs === 0\<close> and \<^verbatim>\<open>min < 0\<close>.
\<close>

definition repels :: "distance_fn \<Rightarrow> SnapService \<Rightarrow> wid \<Rightarrow> wid \<Rightarrow> bool" where
  "repels distanceFn s w v =
     (let distance = distanceFn (getState (window_heap s w)) (getState (window_heap s v))
      in v \<noteq> w \<and> mr_minAbs distance = 0 \<and> mr_min distance < 0)"

text \<open>
  The reading of one round of \<^verbatim>\<open>calculateOffset\<close> in which the sign of the difference
  of the centres is multiplied by the magnitude of the overlap on the other axis. It is
  not taken from the source and serves only to be compared with
  \<open>calculateOffset_step\<close>.
\<close>

definition weighted_calculateOffset_step ::
  "distance_fn \<Rightarrow> SnapService \<Rightarrow> wid \<Rightarrow> wid \<Rightarrow> Point \<Rightarrow> Point" where
  "weighted_calculateOffset_step distanceFn s w v totalOffset =
     (let ws = getState (window_heap s w);
          vs = getState (window_heap s v);
          distance = distanceFn ws vs
      in \<lparr>px = px totalOffset + sgn (px (center ws) - px (center vs)) * \<bar>mr_y distance\<bar>,
          py = py totalOffset + sgn (py (center ws) - py (center vs)) * \<bar>mr_x distance\<bar>\<rparr>)"

text \<open>
  What one window \<open>v\<close> that passes the guard contributes to the offset of \<open>w\<close> on each
  axis, as the source computes it: the sign of a product.
\<close>

definition push_x :: "distance_fn \<Rightarrow> SnapService \<Rightarrow> wid \<Rightarrow> wid \<Rightarrow> real" where
  "push_x distanceFn s w v =
     (let ws = getState (window_heap s w);
          vs = getState (window_heap s v)
      in sgn ((px (center ws) - px (center vs)) * \<bar>mr_y (distanceFn ws vs)\<bar>))"

definition push_y :: "distance_fn \<Rightarrow> SnapService \<Rightarrow> wid \<Rightarrow> wid \<Rightarrow> real" where
  "push_y distanceFn s w v =
     (let ws = getState (window_heap s w);
          vs = getState (window_heap s v)
      in sgn ((py (center ws) - py (center vs)) * \<bar>mr_x (distanceFn ws vs)\<bar>))"

text \<open>
  The group that \<^verbatim>\<open>explodeGroup\<close> finds for an identity is \<open>g\<close>: \<open>g\<close> is registered,
  one of its windows has the identity, and no other registered group has such a window
  (identities are unique, and a window is in one group).
\<close>

definition explode_target :: "SnapService \<Rightarrow> WindowIdentity \<Rightarrow> gid \<Rightarrow> bool" where
  "explode_target s targetWindow g =
     (g \<in> set (groups s)
      \<and> (\<exists>m\<in>set (group_windows (group_heap s g)). identity_matches targetWindow s m)
      \<and> (\<forall>g'\<in>set (groups s).
           (\<exists>v\<in>set (group_windows (group_heap s g')). identity_matches targetWindow s v)
           \<longrightarrow> g' = g))"

text \<open>
  The displacement that the second loop of \<^verbatim>\<open>explodeGroup\<close> gives to \<^verbatim>\<open>offsetBy\<close> for
  a stored offset.
\<close>

definition half_nudge :: "Point \<Rightarrow> Point" where
  "half_nudge off = \<lparr>px = sgn (px off) * 0.5 * UNDOCK_MOVE_SCALE,
                      py = sgn (py off) * 0.5 * UNDOCK_MOVE_SCALE\<rparr>"

section \<open>Invariants of the registry\<close>

text \<open>A group whose five signals carry the listeners that \<^verbatim>\<open>addGroup\<close> attached.\<close>

definition wired_group :: "SnapGroup \<Rightarrow> bool" where
  "wired_group G =
     (onModified G = [validateGroup_h] \<and> onTransform G = [snapGroup_h]
      \<and> onCommit G = [applySnapTarget_h]
      \<and> onWindowRemoved G = [onWindowRemovedFromGroup_h]
      \<and> onWindowAdded G = [sendWindowAddedMessage_h])"

text \<open>A group none of whose signals has a listener left.\<close>

definition unwired_group :: "SnapGroup \<Rightarrow> bool" where
  "unwired_group G =
     (onModified G = [] \<and> onTransform G = [] \<and> onCommit G = []
      \<and> onWindowRemoved G = [] \<and> onWindowAdded G = [])"

text \<open>
  The registry is consistent: no group is registered twice; every registered group was
  allocated, has the service's listeners, lists no window twice, and is the group that
  each of its windows refers back to.
\<close>

definition consistent :: "SnapService \<Rightarrow> bool" where
  "consistent s =
     (distinct (groups s)
      \<and> (\<forall>g\<in>set (groups s).
            g < next_group s
            \<and> wired_group (group_heap s g)
            \<and> distinct (group_windows (group_heap s g))
            \<and> (\<forall>w\<in>set (group_windows (group_heap s g)). getGroup (window_heap s w) = g)))"

text \<open>The invariant of the registry: no registered group is empty.\<close>

definition groups_nonempty :: "SnapService \<Rightarrow> bool" where
  "groups_nonempty s = (\<forall>g\<in>set (groups s). group_windows (group_heap s g) \<noteq> [])"

text \<open>
  What calling listeners can do to a state \<open>s\<close>: groups may leave the registry, and
  nothing else that the registry's invariants read changes.
\<close>

definition shrinks :: "SnapService \<Rightarrow> SnapService \<Rightarrow> bool" where
  "shrinks s s' =
     (window_heap s' = window_heap s \<and> windows s' = windows s
      \<and> next_group s' = next_group s \<and> view s' = view s
      \<and> distinct (groups s') \<and> set (groups s') \<subseteq> set (groups s)
      \<and> (\<forall>g. group_windows (group_heap s' g) = group_windows (group_heap s g))
      \<and> (\<forall>g\<in>set (groups s'). group_heap s' g = group_heap s g)
      \<and> (\<forall>g\<in>set (groups s). g \<notin> set (groups s') \<longrightarrow> group_windows (group_heap s g) = []))"

text \<open>
  What the second loop of \<^verbatim>\<open>explodeGroup\<close> has done to a group \<open>g\<close> when it has gone
  through the list \<open>ws\<close> of its windows, from state \<open>s\<close> to state \<open>s'\<close>: the group is
  out of the registry; every window of the list refers to a registered group that was
  allocated after \<open>s\<close> and lists that window only; every other group registered in \<open>s\<close>
  is registered and unchanged; the registry has lost one group and gained one for each
  window.
\<close>

definition exploded :: "SnapService \<Rightarrow> gid \<Rightarrow> wid list \<Rightarrow> SnapService \<Rightarrow> bool" where
  "exploded s g ws s' =
     (g \<notin> set (groups s')
      \<and> (\<forall>w\<in>set ws.
            getGroup (window_heap s' w) \<in> set (groups s')
            \<and> next_group s \<le> getGroup (window_heap s' w)
            \<and> group_windows (group_heap s' (getGroup (window_heap s' w))) = [w])
      \<and> (\<forall>x\<in>set (groups s). x \<noteq> g \<longrightarrow> x \<in> set (groups s') \<and> group_heap s' x = group_heap s x)
      \<and> length (groups s') + 1 = length (groups s) + length ws
      \<and> next_group s' = next_group s + length ws)"

text \<open>
  A snap target for the examples: window 2, the only window of group 1, is to join group
  0, moved by (5, 5) and resized to a half size of 12 by 10.
\<close>

definition example_target :: SnapTarget where
  "example_target = \<lparr>target_group = 0, activeWindow = 2, snapOffset = \<lparr>px = 5, py = 5\<rparr>,
     target_halfSize = Some \<lparr>px = 12, py = 10\<rparr>, validity = VALID\<rparr>"

text \<open>
  A second snap target for the examples: group 0, with its three windows 0, 1 and 3, is
  to join group 1; its window 1 is the anchor, moved by (5, 5) and resized to a half size
  of 12 by 10.
\<close>

definition example_group_target :: SnapTarget where
  "example_group_target = \<lparr>target_group = 1, activeWindow = 1,
     snapOffset = \<lparr>px = 5, py = 5\<rparr>, target_halfSize = Some \<lparr>px = 12, py = 10\<rparr>,
     validity = VALID\<rparr>"

text \<open>
  The states that the service can be in between two calls: it starts with empty
  registries, and every step is the admission of a window whose object no registered
  group lists yet, an undock, an explode, a drag update, a commit or the close of a
  window.
\<close>

inductive reachable :: "SnapService \<Rightarrow> bool" where
  r_start: "windows s = [] \<Longrightarrow> groups s = [] \<Longrightarrow> reachable s"
| r_addWindow: "reachable s \<Longrightarrow>
    (\<forall>g\<in>set (groups s). w \<notin> set (group_windows (group_heap s g))) \<Longrightarrow>
    reachable (addWindow w identity st s)"
| r_undock: "reachable s \<Longrightarrow> reachable (undock distanceFn target s)"
| r_explodeGroup: "reachable s \<Longrightarrow> reachable (explodeGroup distanceFn target s)"
| r_snapGroup: "reachable s \<Longrightarrow> reachable (snapGroup getSnapTarget activeGroup s)"
| r_applySnapTarget: "reachable s \<Longrightarrow>
    reachable (applySnapTarget getSnapTarget foo activeGroup s)"
| r_close: "reachable s \<Longrightarrow> reachable (close_window w s)"

section \<open>Auxiliary facts\<close>

lemmas example_defs = example_service_def example_window_def wired_def example_distance_def
  new_SnapGroup_def

lemma find_unique:
  "x \<in> set xs \<Longrightarrow> P x \<Longrightarrow> (\<forall>y\<in>set xs. P y \<longrightarrow> y = x) \<Longrightarrow> find P xs = Some x"
proof (induction xs)
  case Nil
  then show ?case by simp
next
  case (Cons a xs)
  show ?case
  proof (cases "P a")
    case True
    with Cons.prems have "a = x" by simp
    with True show ?thesis by simp
  next
    case False
    with Cons.prems have "x \<in> set xs" by auto
    moreover have "\<forall>y\<in>set xs. P y \<longrightarrow> y = x" using Cons.prems by simp
    ultimately have "find P xs = Some x" using Cons.IH Cons.prems(2) by blast
    with False show ?thesis by simp
  qed
qed

lemma find_no_match: "(\<forall>y\<in>set xs. \<not> P y) \<Longrightarrow> find P xs = None"
  by (induction xs) simp_all

lemma window_heap_removeGroup [simp]: "window_heap (removeGroup g s) = window_heap s"
  by (simp add: removeGroup_def Let_def)

lemma window_heap_call_handler [simp]: "window_heap (call_handler h g w s) = window_heap s"
  by (cases h) (simp_all add: validateGroup_def onWindowRemovedFromGroup_def
      sendWindowAddedMessage_def sendWindowRemovedMessage_def)

lemma window_heap_emit [simp]: "window_heap (emit hs g w s) = window_heap s"
  unfolding emit_def by (induction hs arbitrary: s) simp_all

lemma window_heap_setGroup:
  "window_heap (setGroup w g off hs s) =
     (window_heap s)(w := (window_heap s w)\<lparr>getGroup := g,
        getState := transformState off hs (getState (window_heap s w))\<rparr>)"
  by (simp add: setGroup_def unlink_window_def link_window_def Let_def)

lemma fst_addGroup [simp]: "fst (addGroup s) = next_group s"
  by (simp add: addGroup_def Let_def)

lemma window_heap_addGroup [simp]: "window_heap (snd (addGroup s)) = window_heap s"
  by (simp add: addGroup_def Let_def)

lemma window_heap_offsetBy:
  "window_heap (offsetBy w d s) =
     (window_heap s)(w := (window_heap s w)\<lparr>getState :=
        transformState (Some d) None (getState (window_heap s w))\<rparr>)"
  by (simp add: offsetBy_def Let_def)

lemma transformState_None [simp]: "transformState None None r = r"
  by (simp add: transformState_def)

lemma window_heap_undock:
  assumes "find (identity_matches target s) (windows s) = Some w"
  shows "window_heap (undock distanceFn target s) w =
     (window_heap s w)\<lparr>getGroup := next_group s,
        getState := transformState
          (Some \<lparr>px = sgn (if px (calculateOffset distanceFn s w) \<noteq> 0
                            then px (calculateOffset distanceFn s w) else 1) * UNDOCK_MOVE_SCALE,
                 py = sgn (if py (calculateOffset distanceFn s w) \<noteq> 0
                            then py (calculateOffset distanceFn s w) else 1) * UNDOCK_MOVE_SCALE\<rparr>)
          None (getState (window_heap s w))\<rparr>"
  using assms
  by (simp add: undock_def Let_def case_prod_unfold window_heap_offsetBy window_heap_setGroup)

section \<open>The preview rectangle of a snap target\<close>

text \<open>
  C9: for a snap target given to \<^verbatim>\<open>Preview.show\<close>, the half size of the preview rectangle
  is the target's half size when it has one and the current half size of the anchor
  window otherwise; its centre is the anchor's current centre plus the target offset plus,
  on each axis, the preview half size minus the anchor's current half size. The preview
  window for snap targets of the target's validity is given the bounds of that rectangle:
  its left and top edges are those of the anchor window moved by the offset, its width
  and height twice the preview half size.
\<close>

theorem generatePreviewRect_snap:
  "halfSize (generatePreviewRect (SNAP target)) =
     (case snap_halfSize target of Some h \<Rightarrow> h | None \<Rightarrow> halfSize (currentState target))
   \<and> px (center (generatePreviewRect (SNAP target))) =
       px (center (currentState target)) + px (offset target)
       + (px (halfSize (generatePreviewRect (SNAP target))) - px (halfSize (currentState target)))
   \<and> py (center (generatePreviewRect (SNAP target))) =
       py (center (currentState target)) + py (offset target)
       + (py (halfSize (generatePreviewRect (SNAP target))) - py (halfSize (currentState target)))
   \<and> previewBounds (show_preview (SNAP target) p)
         (snap, if snap_valid target then Validity_VALID else Validity_INVALID) =
       (px (center (currentState target)) - px (halfSize (currentState target))
          + px (offset target),
        py (center (currentState target)) - py (halfSize (currentState target))
          + py (offset target),
        px (halfSize (generatePreviewRect (SNAP target))) * 2,
        py (halfSize (generatePreviewRect (SNAP target))) * 2)"
proof -
  let ?r = "generatePreviewRect (SNAP target)"
  have h: "halfSize ?r =
     (case snap_halfSize target of Some h \<Rightarrow> h | None \<Rightarrow> halfSize (currentState target))"
    by (simp add: Let_def)
  have cx: "px (center ?r) = px (center (currentState target)) + px (offset target)
       + (px (halfSize ?r) - px (halfSize (currentState target)))"
    by (simp add: Let_def)
  have cy: "py (center ?r) = py (center (currentState target)) + py (offset target)
       + (py (halfSize ?r) - py (halfSize (currentState target)))"
    by (simp add: Let_def)
  have b: "previewBounds (show_preview (SNAP target) p)
         (snap, if snap_valid target then Validity_VALID else Validity_INVALID) =
       (px (center ?r) - px (halfSize ?r), py (center ?r) - py (halfSize ?r),
        px (halfSize ?r) * 2, py (halfSize ?r) * 2)"
    by (simp add: show_preview_def positionPreview_def hide_def target_valid_def
        target_type_def Let_def)
  have "px (center ?r) - px (halfSize ?r) =
      px (center (currentState target)) - px (halfSize (currentState target))
          + px (offset target)"
    unfolding cx by simp
  moreover have "py (center ?r) - py (halfSize ?r) =
      py (center (currentState target)) - py (halfSize (currentState target))
          + py (offset target)"
    unfolding cy by simp
  ultimately show ?thesis using h cx cy b by simp
qed

section \<open>Operations that find nothing to do\<close>

text \<open>
  C6: \<^verbatim>\<open>undock\<close> with an identity that no registered window has, and
  \<^verbatim>\<open>explodeGroup\<close> with an identity that no window of a registered group has or whose
  groups have at most one window, return the state they were given: windows, groups,
  memberships and rectangles are all as before.
\<close>

theorem unknown_identity_noop:
  "((\<forall>w\<in>set (windows s). \<not> identity_matches target s w)
      \<longrightarrow> undock distanceFn target s = s)
   \<and> ((\<forall>g\<in>set (groups s). \<forall>w\<in>set (group_windows (group_heap s g)).
          \<not> identity_matches target s w)
      \<longrightarrow> explodeGroup distanceFn target s = s)
   \<and> ((\<forall>g\<in>set (groups s).
          (\<exists>w\<in>set (group_windows (group_heap s g)). identity_matches target s w)
          \<longrightarrow> group_length s g \<le> 1)
      \<longrightarrow> explodeGroup distanceFn target s = s)"
proof (intro conjI impI)
  assume "\<forall>w\<in>set (windows s). \<not> identity_matches target s w"
  then have "find (identity_matches target s) (windows s) = None"
    by (rule find_no_match)
  then show "undock distanceFn target s = s"
    by (simp add: undock_def)
next
  assume a: "\<forall>g\<in>set (groups s). \<forall>w\<in>set (group_windows (group_heap s g)).
          \<not> identity_matches target s w"
  have "find (\<lambda>g. length (filter (identity_matches target s)
                                (group_windows (group_heap s g))) > 0) (groups s) = None"
    by (rule find_no_match) (use a in \<open>simp add: filter_empty_conv\<close>)
  then show "explodeGroup distanceFn target s = s"
    by (simp add: explodeGroup_def)
next
  assume a: "\<forall>g\<in>set (groups s).
          (\<exists>w\<in>set (group_windows (group_heap s g)). identity_matches target s w)
          \<longrightarrow> group_length s g \<le> 1"
  show "explodeGroup distanceFn target s = s"
  proof (cases "find (\<lambda>g. length (filter (identity_matches target s)
                                (group_windows (group_heap s g))) > 0) (groups s)")
    case None
    then show ?thesis by (simp add: explodeGroup_def)
  next
    case (Some g)
    then have "g \<in> set (groups s)"
      and "length (filter (identity_matches target s) (group_windows (group_heap s g))) > 0"
      by (auto simp: find_Some_iff)
    then have "group_length s g \<le> 1"
      using a by (auto simp: filter_empty_conv)
    with Some show ?thesis by (simp add: explodeGroup_def)
  qed
qed

theorem unknown_identity_noop_witness:
  "undock example_distance \<lparr>uuid = ''app'', name = ''z''\<rparr> example_service = example_service
   \<and> explodeGroup example_distance \<lparr>uuid = ''app'', name = ''z''\<rparr> example_service
       = example_service
   \<and> identity_matches \<lparr>uuid = ''app'', name = ''c''\<rparr> example_service 2
   \<and> explodeGroup example_distance \<lparr>uuid = ''app'', name = ''c''\<rparr> example_service
       = example_service"
proof -
  have h1: "\<forall>w\<in>set (windows example_service).
       \<not> identity_matches \<lparr>uuid = ''app'', name = ''z''\<rparr> example_service w"
    by (simp add: example_defs identity_matches_def)
  have h2: "\<forall>g\<in>set (groups example_service).
       \<forall>w\<in>set (group_windows (group_heap example_service g)).
       \<not> identity_matches \<lparr>uuid = ''app'', name = ''z''\<rparr> example_service w"
    by (simp add: example_defs identity_matches_def)
  have h3: "\<forall>g\<in>set (groups example_service).
       (\<exists>w\<in>set (group_windows (group_heap example_service g)).
          identity_matches \<lparr>uuid = ''app'', name = ''c''\<rparr> example_service w)
       \<longrightarrow> group_length example_service g \<le> 1"
    by (simp add: example_defs identity_matches_def)
  have m: "identity_matches \<lparr>uuid = ''app'', name = ''c''\<rparr> example_service 2"
    by (simp add: example_defs identity_matches_def)
  note z = unknown_identity_noop
    [of example_service "\<lparr>uuid = ''app'', name = ''z''\<rparr>" example_distance]
  note c = unknown_identity_noop
    [of example_service "\<lparr>uuid = ''app'', name = ''c''\<rparr>" example_distance]
  from z h1 have "undock example_distance \<lparr>uuid = ''app'', name = ''z''\<rparr> example_service
      = example_service" by blast
  moreover from z h2 have "explodeGroup example_distance \<lparr>uuid = ''app'', name = ''z''\<rparr>
      example_service = example_service" by blast
  moreover from c h3 have "explodeGroup example_distance \<lparr>uuid = ''app'', name = ''c''\<rparr>
      example_service = example_service" by blast
  ultimately show ?thesis using m by blast
qed

section \<open>A commit without a valid target\<close>

text \<open>
  C8: when the resolver returns no target, or a target whose validity is not VALID,
  \<^verbatim>\<open>applySnapTarget\<close> changes nothing but the view; and in every case it ends with the
  view reset by \<^verbatim>\<open>update(null, null)\<close>.
\<close>

theorem applySnapTarget_no_valid_target:
  "((getSnapTarget s (groups s) activeGroup = None
      \<or> (\<exists>t. getSnapTarget s (groups s) activeGroup = Some t \<and> validity t \<noteq> VALID))
     \<longrightarrow> applySnapTarget getSnapTarget foo activeGroup s = s\<lparr>view := (None, None)\<rparr>)
   \<and> view (applySnapTarget getSnapTarget foo activeGroup s) = (None, None)"
proof (intro conjI impI)
  assume "getSnapTarget s (groups s) activeGroup = None
      \<or> (\<exists>t. getSnapTarget s (groups s) activeGroup = Some t \<and> validity t \<noteq> VALID)"
  then show "applySnapTarget getSnapTarget foo activeGroup s = s\<lparr>view := (None, None)\<rparr>"
  proof
    assume "getSnapTarget s (groups s) activeGroup = None"
    then show ?thesis by (simp add: applySnapTarget_def)
  next
    assume "\<exists>t. getSnapTarget s (groups s) activeGroup = Some t \<and> validity t \<noteq> VALID"
    then obtain t where "getSnapTarget s (groups s) activeGroup = Some t"
      and "validity t \<noteq> VALID" by blast
    then show ?thesis by (simp add: applySnapTarget_def)
  qed
next
  show "view (applySnapTarget getSnapTarget foo activeGroup s) = (None, None)"
    by (simp add: applySnapTarget_def Let_def)
qed

theorem applySnapTarget_no_valid_target_witness:
  "applySnapTarget (\<lambda>s gs g. None) False 0 example_service
     = example_service\<lparr>view := (None, None)\<rparr>
   \<and> applySnapTarget (\<lambda>s gs g. Some \<lparr>target_group = 1, activeWindow = 0,
          snapOffset = \<lparr>px = 5, py = 5\<rparr>, target_halfSize = None, validity = INVALID\<rparr>)
        False 0 example_service
     = example_service\<lparr>view := (None, None)\<rparr>"
proof -
  note a = applySnapTarget_no_valid_target [of "\<lambda>s gs g. None" example_service 0 False]
  note b = applySnapTarget_no_valid_target [of "\<lambda>s gs g. Some \<lparr>target_group = 1,
          activeWindow = 0, snapOffset = \<lparr>px = 5, py = 5\<rparr>, target_halfSize = None,
          validity = INVALID\<rparr>" example_service 0 False]
  from a have "applySnapTarget (\<lambda>s gs g. None) False 0 example_service
     = example_service\<lparr>view := (None, None)\<rparr>" by simp
  moreover from b have "applySnapTarget (\<lambda>s gs g. Some \<lparr>target_group = 1, activeWindow = 0,
          snapOffset = \<lparr>px = 5, py = 5\<rparr>, target_halfSize = None, validity = INVALID\<rparr>)
        False 0 example_service
     = example_service\<lparr>view := (None, None)\<rparr>" by simp
  ultimately show ?thesis by simp
qed

lemma calculateOffset_step_repels:
  "calculateOffset_step distanceFn s w v acc =
     (if repels distanceFn s w v then
        \<lparr>px = px acc + push_x distanceFn s w v, py = py acc + push_y distanceFn s w v\<rparr>
      else acc)"
  by (simp add: calculateOffset_step_def repels_def push_x_def push_y_def Let_def)

lemma calculateOffset_fold:
  "fold (calculateOffset_step distanceFn s w) vs acc =
     \<lparr>px = px acc + (\<Sum>v\<leftarrow>filter (repels distanceFn s w) vs. push_x distanceFn s w v),
      py = py acc + (\<Sum>v\<leftarrow>filter (repels distanceFn s w) vs. push_y distanceFn s w v)\<rparr>"
proof (induction vs arbitrary: acc)
  case Nil
  show ?case by simp
next
  case (Cons v vs)
  have "fold (calculateOffset_step distanceFn s w) (v # vs) acc =
      fold (calculateOffset_step distanceFn s w) vs (calculateOffset_step distanceFn s w v acc)"
    by simp
  also have "\<dots> =
     \<lparr>px = px (calculateOffset_step distanceFn s w v acc)
            + (\<Sum>v\<leftarrow>filter (repels distanceFn s w) vs. push_x distanceFn s w v),
      py = py (calculateOffset_step distanceFn s w v acc)
            + (\<Sum>v\<leftarrow>filter (repels distanceFn s w) vs. push_y distanceFn s w v)\<rparr>"
    by (rule Cons.IH)
  also have "\<dots> =
     \<lparr>px = px acc + (\<Sum>v\<leftarrow>filter (repels distanceFn s w) (v # vs). push_x distanceFn s w v),
      py = py acc + (\<Sum>v\<leftarrow>filter (repels distanceFn s w) (v # vs). push_y distanceFn s w v)\<rparr>"
    by (simp add: calculateOffset_step_repels add.assoc)
  finally show ?case .
qed

section \<open>What calculateOffset adds up\<close>

text \<open>
  C4, as amended: for a window \<open>w\<close>, \<^verbatim>\<open>calculateOffset\<close> adds, for every other window
  \<open>v\<close> of the group of \<open>w\<close> that passes the guard, to the x component the sign of the
  product of the difference of the centres on x and the magnitude of the distance on y,
  and to the y component the sign of the product of the difference of the centres on y
  and the magnitude of the distance on x. Each window so adds \<open>-1\<close>, \<open>0\<close> or \<open>1\<close> on
  each axis, whatever the size of the overlap.
\<close>

theorem calculateOffset_sum_of_signs:
  "calculateOffset distanceFn s w =
     \<lparr>px = (\<Sum>v\<leftarrow>filter (repels distanceFn s w)
                   (group_windows (group_heap s (getGroup (window_heap s w)))).
              push_x distanceFn s w v),
      py = (\<Sum>v\<leftarrow>filter (repels distanceFn s w)
                   (group_windows (group_heap s (getGroup (window_heap s w)))).
              push_y distanceFn s w v)\<rparr>
   \<and> push_x distanceFn s w v =
       sgn ((px (center (getState (window_heap s w))) - px (center (getState (window_heap s v))))
            * \<bar>mr_y (distanceFn (getState (window_heap s w)) (getState (window_heap s v)))\<bar>)
   \<and> push_y distanceFn s w v =
       sgn ((py (center (getState (window_heap s w))) - py (center (getState (window_heap s v))))
            * \<bar>mr_x (distanceFn (getState (window_heap s w)) (getState (window_heap s v)))\<bar>)
   \<and> push_x distanceFn s w v \<in> {- 1, 0, 1} \<and> push_y distanceFn s w v \<in> {- 1, 0, 1}"
proof -
  have "calculateOffset distanceFn s w =
     \<lparr>px = (\<Sum>v\<leftarrow>filter (repels distanceFn s w)
                   (group_windows (group_heap s (getGroup (window_heap s w)))).
              push_x distanceFn s w v),
      py = (\<Sum>v\<leftarrow>filter (repels distanceFn s w)
                   (group_windows (group_heap s (getGroup (window_heap s w)))).
              push_y distanceFn s w v)\<rparr>"
    by (simp add: calculateOffset_def calculateOffset_fold)
  moreover have "push_x distanceFn s w v \<in> {- 1, 0, 1}" "push_y distanceFn s w v \<in> {- 1, 0, 1}"
    by (simp_all add: push_x_def push_y_def Let_def sgn_if)
  ultimately show ?thesis
    by (simp add: push_x_def push_y_def Let_def)
qed

theorem calculateOffset_sum_of_signs_witness:
  "filter (repels example_distance example_service 0)
     (group_windows (group_heap example_service (getGroup (window_heap example_service 0)))) = [1]
   \<and> push_x example_distance example_service 0 1 = - 1
   \<and> push_y example_distance example_service 0 1 = 0
   \<and> calculateOffset example_distance example_service 0 = \<lparr>px = - 1, py = 0\<rparr>"
proof -
  have f: "filter (repels example_distance example_service 0)
     (group_windows (group_heap example_service (getGroup (window_heap example_service 0)))) = [1]"
    by (simp add: example_defs repels_def)
  have x: "push_x example_distance example_service 0 1 = - 1"
    by (simp add: example_defs push_x_def)
  have y: "push_y example_distance example_service 0 1 = 0"
    by (simp add: example_defs push_y_def)
  have "calculateOffset example_distance example_service 0 =
     \<lparr>px = (\<Sum>v\<leftarrow>filter (repels example_distance example_service 0)
                   (group_windows (group_heap example_service
                      (getGroup (window_heap example_service 0)))).
              push_x example_distance example_service 0 v),
      py = (\<Sum>v\<leftarrow>filter (repels example_distance example_service 0)
                   (group_windows (group_heap example_service
                      (getGroup (window_heap example_service 0)))).
              push_y example_distance example_service 0 v)\<rparr>"
    using calculateOffset_sum_of_signs [of example_distance example_service 0 1]
    by (rule conjunct1)
  then have "calculateOffset example_distance example_service 0 = \<lparr>px = - 1, py = 0\<rparr>"
    by (simp only: f x y list.map sum_list.Cons sum_list.Nil add_0_right)
  with f x y show ?thesis by simp
qed

text \<open>
  The statement of C4 with the sign of the difference multiplied by the magnitude of the
  overlap fails: for the two windows of the example that stand side by side and overlap by
  20 on the y axis, the source adds \<open>-1\<close> on x where the weighted reading adds \<open>-20\<close>.
\<close>

theorem calculateOffset_weighted_counterexample:
  "repels example_distance example_service 0 1
   \<and> calculateOffset_step example_distance example_service 0 1 \<lparr>px = 0, py = 0\<rparr>
       = \<lparr>px = - 1, py = 0\<rparr>
   \<and> weighted_calculateOffset_step example_distance example_service 0 1 \<lparr>px = 0, py = 0\<rparr>
       = \<lparr>px = - 20, py = 0\<rparr>
   \<and> calculateOffset_step example_distance example_service 0 1 \<lparr>px = 0, py = 0\<rparr>
       \<noteq> weighted_calculateOffset_step example_distance example_service 0 1 \<lparr>px = 0, py = 0\<rparr>"
  by (simp add: example_defs repels_def calculateOffset_step_def weighted_calculateOffset_step_def)

section \<open>The displacement of an undocked window\<close>

text \<open>
  C5: for a registered window \<open>w\<close>, found by its identity, \<^verbatim>\<open>undock\<close> moves the centre
  of \<open>w\<close> on each axis by exactly \<^verbatim>\<open>UNDOCK_MOVE_SCALE\<close>, which is 30: by \<open>-30\<close> when
  the component of the repulsion offset computed before the move is negative and by
  \<open>+30\<close> when it is positive or zero. The window's size is unchanged.
\<close>

theorem undock_displacement:
  assumes reg: "w \<in> set (windows s)"
    and tgt: "target = getIdentity (window_heap s w)"
    and uniq: "\<forall>v\<in>set (windows s). getIdentity (window_heap s v) = target \<longrightarrow> v = w"
  shows "px (center (getState (window_heap (undock distanceFn target s) w))) =
           px (center (getState (window_heap s w)))
           + (if px (calculateOffset distanceFn s w) < 0 then - 30 else 30)
       \<and> py (center (getState (window_heap (undock distanceFn target s) w))) =
           py (center (getState (window_heap s w)))
           + (if py (calculateOffset distanceFn s w) < 0 then - 30 else 30)
       \<and> halfSize (getState (window_heap (undock distanceFn target s) w)) =
           halfSize (getState (window_heap s w))
       \<and> UNDOCK_MOVE_SCALE = 30"
proof -
  have m: "identity_matches target s w"
    by (simp add: identity_matches_def tgt)
  have u: "\<forall>v\<in>set (windows s). identity_matches target s v \<longrightarrow> v = w"
    using uniq by (simp add: identity_matches_def Let_def)
  have f: "find (identity_matches target s) (windows s) = Some w"
    using reg m u by (rule find_unique)
  show ?thesis
    unfolding window_heap_undock [OF f]
    by (simp add: transformState_def translate_def UNDOCK_MOVE_SCALE_def sgn_if)
qed

theorem undock_displacement_witness:
  "0 \<in> set (windows example_service)
   \<and> getIdentity (window_heap example_service 0) = \<lparr>uuid = ''app'', name = ''a''\<rparr>
   \<and> getIdentity (window_heap example_service 1) \<noteq> \<lparr>uuid = ''app'', name = ''a''\<rparr>
   \<and> getIdentity (window_heap example_service 2) \<noteq> \<lparr>uuid = ''app'', name = ''a''\<rparr>
   \<and> getIdentity (window_heap example_service 3) \<noteq> \<lparr>uuid = ''app'', name = ''a''\<rparr>
   \<and> calculateOffset example_distance example_service 0 = \<lparr>px = - 1, py = 0\<rparr>
   \<and> center (getState (window_heap
         (undock example_distance \<lparr>uuid = ''app'', name = ''a''\<rparr> example_service) 0))
       = \<lparr>px = - 30, py = 30\<rparr>"
proof -
  have h1: "0 \<in> set (windows example_service)" by (simp add: example_defs)
  have h2: "\<lparr>uuid = ''app'', name = ''a''\<rparr> = getIdentity (window_heap example_service 0)"
    by (simp add: example_defs)
  have h3: "\<forall>v\<in>set (windows example_service).
         getIdentity (window_heap example_service v) = \<lparr>uuid = ''app'', name = ''a''\<rparr> \<longrightarrow> v = 0"
    by (simp add: example_defs)
  have c0: "center (getState (window_heap example_service 0)) = \<lparr>px = 0, py = 0\<rparr>"
    by (simp add: example_defs)
  have off: "calculateOffset example_distance example_service 0 = \<lparr>px = - 1, py = 0\<rparr>"
    by (simp add: example_defs calculateOffset_def calculateOffset_step_def)
  show ?thesis
    using undock_displacement [OF h1 h2 h3, of example_distance] h1 h2 [symmetric] off
    by (simp add: c0 Point.equality) (simp add: example_defs)
qed

lemma explode_target_find:
  assumes "explode_target s targetWindow g"
  shows "find (\<lambda>g. length (filter (identity_matches targetWindow s)
                        (group_windows (group_heap s g))) > 0) (groups s) = Some g"
proof (rule find_unique)
  show "g \<in> set (groups s)" using assms by (simp add: explode_target_def)
  show "0 < length (filter (identity_matches targetWindow s) (group_windows (group_heap s g)))"
    using assms by (auto simp: explode_target_def filter_empty_conv)
  show "\<forall>y\<in>set (groups s).
       0 < length (filter (identity_matches targetWindow s) (group_windows (group_heap s y)))
       \<longrightarrow> y = g"
    using assms by (auto simp: explode_target_def filter_empty_conv)
qed

lemma window_heap_explode_window:
  "window_heap (explode_window (w, off) s) =
     (window_heap s)(w := (window_heap s w)\<lparr>getGroup := next_group s,
        getState := transformState (Some (half_nudge off)) None (getState (window_heap s w))\<rparr>)"
  by (simp add: explode_window_def Let_def case_prod_unfold window_heap_offsetBy
      window_heap_setGroup half_nudge_def)

lemma window_heap_explode_other:
  "w \<notin> fst ` set wos \<Longrightarrow> window_heap (fold explode_window wos s) w = window_heap s w"
proof (induction wos arbitrary: s)
  case Nil
  show ?case by simp
next
  case (Cons wo wos)
  obtain v off where wo: "wo = (v, off)" by (cases wo)
  with Cons.prems have "v \<noteq> w" and "w \<notin> fst ` set wos" by auto
  then show ?case
    by (simp add: wo Cons.IH window_heap_explode_window)
qed

lemma getState_explode_member:
  "distinct (map fst wos) \<Longrightarrow> (w, off) \<in> set wos \<Longrightarrow>
   getState (window_heap (fold explode_window wos s) w) =
     transformState (Some (half_nudge off)) None (getState (window_heap s w))"
proof (induction wos arbitrary: s)
  case Nil
  then show ?case by simp
next
  case (Cons wo wos)
  obtain v off' where wo: "wo = (v, off')" by (cases wo)
  show ?case
  proof (cases "v = w")
    case True
    with Cons.prems wo have notin: "w \<notin> fst ` set wos" and "off' = off"
      by (auto simp: image_iff)
    then show ?thesis
      by (simp add: wo True window_heap_explode_other window_heap_explode_window)
  next
    case False
    with Cons.prems wo have "(w, off) \<in> set wos" and "distinct (map fst wos)" by auto
    then have "getState (window_heap (fold explode_window wos (explode_window wo s)) w) =
        transformState (Some (half_nudge off)) None
          (getState (window_heap (explode_window wo s) w))"
      by (rule Cons.IH [rotated])
    with False show ?thesis
      by (simp add: wo window_heap_explode_window)
  qed
qed

lemma getState_explodeGroup:
  assumes tg: "explode_target s targetWindow g"
    and many: "group_length s g > 1"
    and dist: "distinct (group_windows (group_heap s g))"
    and mem: "w \<in> set (group_windows (group_heap s g))"
  shows "getState (window_heap (explodeGroup distanceFn targetWindow s) w) =
     transformState (Some (half_nudge (calculateOffset distanceFn s w))) None
       (getState (window_heap s w))"
proof -
  let ?ws = "group_windows (group_heap s g)"
  let ?wos = "zip ?ws (map (calculateOffset distanceFn s) ?ws)"
  have e: "explodeGroup distanceFn targetWindow s = fold explode_window ?wos s"
    unfolding explodeGroup_def explode_target_find [OF tg] using many by (simp add: Let_def)
  have d: "distinct (map fst ?wos)" using dist by simp
  have m: "(w, calculateOffset distanceFn s w) \<in> set ?wos"
    using mem by (auto simp: zip_map2 image_iff zip_same_conv_map)
  show ?thesis unfolding e using d m by (rule getState_explode_member)
qed

lemma calculateOffset_no_neighbour:
  assumes "\<forall>v\<in>set (group_windows (group_heap s (getGroup (window_heap s w)))).
             \<not> repels distanceFn s w v"
  shows "calculateOffset distanceFn s w = \<lparr>px = 0, py = 0\<rparr>"
proof -
  have "filter (repels distanceFn s w)
          (group_windows (group_heap s (getGroup (window_heap s w)))) = []"
    using assms by (simp add: filter_empty_conv)
  then show ?thesis
    by (simp add: calculateOffset_def calculateOffset_fold)
qed

lemma example_target_a: "explode_target example_service \<lparr>uuid = ''app'', name = ''a''\<rparr> 0"
  by (simp add: explode_target_def example_defs identity_matches_def)

lemma example_group_0:
  "group_windows (group_heap example_service 0) = [0, 1, 3]"
  by (simp add: example_defs)

lemma example_offset_1:
  "calculateOffset example_distance example_service 1 = \<lparr>px = 1, py = 0\<rparr>"
  by (simp add: example_defs calculateOffset_def calculateOffset_step_def)

text \<open>
  Had the offset of window 1 been computed after window 0 was taken out of the group, it
  would have been zero: window 0 is the only one that window 1 touches.
\<close>

lemma example_offset_1_late:
  "calculateOffset example_distance
     (explode_window (0, calculateOffset example_distance example_service 0) example_service) 1
   = \<lparr>px = 0, py = 0\<rparr>"
  by (simp add: example_defs calculateOffset_def calculateOffset_step_def explode_window_def
      addGroup_def setGroup_def unlink_window_def link_window_def offsetBy_def emit_def
      onWindowRemovedFromGroup_def
      sendWindowRemovedMessage_def sendWindowAddedMessage_def signal_add_def Let_def
      transformState_def translate_def UNDOCK_MOVE_SCALE_def)

section \<open>Offsets of an explode are those of the state before it\<close>

text \<open>
  C7: when \<^verbatim>\<open>explodeGroup\<close> finds a group \<open>g\<close> of more than one window, every window
  \<open>w\<close> of \<open>g\<close> ends at its old centre moved, on each axis, by the sign of the component of
  \<open>calculateOffset\<close> for \<open>w\<close> in the state before the call (all windows of \<open>g\<close>
  still being its members) times half of \<^verbatim>\<open>UNDOCK_MOVE_SCALE\<close>, which is 15.
\<close>

theorem explodeGroup_precomputed_offsets:
  assumes tg: "explode_target s targetWindow g"
    and many: "group_length s g > 1"
    and dist: "distinct (group_windows (group_heap s g))"
    and mem: "w \<in> set (group_windows (group_heap s g))"
  shows "center (getState (window_heap (explodeGroup distanceFn targetWindow s) w)) =
           \<lparr>px = px (center (getState (window_heap s w)))
                  + sgn (px (calculateOffset distanceFn s w)) * 15,
            py = py (center (getState (window_heap s w)))
                  + sgn (py (calculateOffset distanceFn s w)) * 15\<rparr>
       \<and> halfSize (getState (window_heap (explodeGroup distanceFn targetWindow s) w)) =
           halfSize (getState (window_heap s w))
       \<and> 0.5 * UNDOCK_MOVE_SCALE = 15"
  unfolding getState_explodeGroup [OF tg many dist mem]
  by (simp add: transformState_def translate_def half_nudge_def UNDOCK_MOVE_SCALE_def)

theorem explodeGroup_precomputed_offsets_witness:
  "calculateOffset example_distance example_service 1 = \<lparr>px = 1, py = 0\<rparr>
   \<and> center (getState (window_heap example_service 1)) = \<lparr>px = 20, py = 0\<rparr>
   \<and> center (getState (window_heap
        (explodeGroup example_distance \<lparr>uuid = ''app'', name = ''a''\<rparr> example_service) 1))
       = \<lparr>px = 35, py = 0\<rparr>"
proof -
  have many: "group_length example_service 0 > 1" by (simp add: example_group_0)
  have dist: "distinct (group_windows (group_heap example_service 0))"
    by (simp add: example_group_0)
  have mem: "1 \<in> set (group_windows (group_heap example_service 0))"
    by (simp add: example_group_0)
  have c: "center (getState (window_heap example_service 1)) = \<lparr>px = 20, py = 0\<rparr>"
    by (simp add: example_defs)
  have "center (getState (window_heap
        (explodeGroup example_distance \<lparr>uuid = ''app'', name = ''a''\<rparr> example_service) 1))
       = \<lparr>px = px (center (getState (window_heap example_service 1)))
                  + sgn (px (calculateOffset example_distance example_service 1)) * 15,
          py = py (center (getState (window_heap example_service 1)))
                  + sgn (py (calculateOffset example_distance example_service 1)) * 15\<rparr>"
    using explodeGroup_precomputed_offsets [OF example_target_a many dist mem, of example_distance]
    by (rule conjunct1)
  then have "center (getState (window_heap
        (explodeGroup example_distance \<lparr>uuid = ''app'', name = ''a''\<rparr> example_service) 1))
       = \<lparr>px = 35, py = 0\<rparr>"
    unfolding example_offset_1 c by simp
  with example_offset_1 c show ?thesis by blast
qed

section \<open>A zero offset leaves an exploded window where it is\<close>

text \<open>
  C10: in \<^verbatim>\<open>explodeGroup\<close> a zero component of the offset computed for a window gives
  no displacement on that axis, and a window of the group that no other member repels
  (none passes the guard of \<^verbatim>\<open>calculateOffset\<close>) keeps its rectangle.
\<close>

theorem explodeGroup_zero_offset_stays:
  assumes tg: "explode_target s targetWindow g"
    and many: "group_length s g > 1"
    and dist: "distinct (group_windows (group_heap s g))"
    and mem: "w \<in> set (group_windows (group_heap s g))"
    and bref: "getGroup (window_heap s w) = g"
  shows "(px (calculateOffset distanceFn s w) = 0 \<longrightarrow>
            px (center (getState (window_heap (explodeGroup distanceFn targetWindow s) w)))
            = px (center (getState (window_heap s w))))
       \<and> (py (calculateOffset distanceFn s w) = 0 \<longrightarrow>
            py (center (getState (window_heap (explodeGroup distanceFn targetWindow s) w)))
            = py (center (getState (window_heap s w))))
       \<and> ((\<forall>v\<in>set (group_windows (group_heap s g)). \<not> repels distanceFn s w v) \<longrightarrow>
            getState (window_heap (explodeGroup distanceFn targetWindow s) w)
            = getState (window_heap s w))"
proof (intro conjI impI)
  assume "px (calculateOffset distanceFn s w) = 0"
  then show "px (center (getState (window_heap (explodeGroup distanceFn targetWindow s) w)))
            = px (center (getState (window_heap s w)))"
    unfolding getState_explodeGroup [OF tg many dist mem]
    by (simp add: transformState_def translate_def half_nudge_def)
next
  assume "py (calculateOffset distanceFn s w) = 0"
  then show "py (center (getState (window_heap (explodeGroup distanceFn targetWindow s) w)))
            = py (center (getState (window_heap s w)))"
    unfolding getState_explodeGroup [OF tg many dist mem]
    by (simp add: transformState_def translate_def half_nudge_def)
next
  assume "\<forall>v\<in>set (group_windows (group_heap s g)). \<not> repels distanceFn s w v"
  then have "calculateOffset distanceFn s w = \<lparr>px = 0, py = 0\<rparr>"
    using bref by (intro calculateOffset_no_neighbour) simp
  then show "getState (window_heap (explodeGroup distanceFn targetWindow s) w)
            = getState (window_heap s w)"
    unfolding getState_explodeGroup [OF tg many dist mem]
    by (simp add: transformState_def translate_def half_nudge_def)
qed

theorem explodeGroup_zero_offset_stays_witness:
  "py (calculateOffset example_distance example_service 0) = 0
   \<and> py (center (getState (window_heap
        (explodeGroup example_distance \<lparr>uuid = ''app'', name = ''a''\<rparr> example_service) 0)))
       = py (center (getState (window_heap example_service 0)))
   \<and> \<not> repels example_distance example_service 3 0
   \<and> \<not> repels example_distance example_service 3 1
   \<and> getState (window_heap
        (explodeGroup example_distance \<lparr>uuid = ''app'', name = ''a''\<rparr> example_service) 3)
       = getState (window_heap example_service 3)"
proof -
  have many: "group_length example_service 0 > 1" by (simp add: example_group_0)
  have dist: "distinct (group_windows (group_heap example_service 0))"
    by (simp add: example_group_0)
  have mem0: "0 \<in> set (group_windows (group_heap example_service 0))"
    by (simp add: example_group_0)
  have mem3: "3 \<in> set (group_windows (group_heap example_service 0))"
    by (simp add: example_group_0)
  have back0: "getGroup (window_heap example_service 0) = 0" by (simp add: example_defs)
  have back3: "getGroup (window_heap example_service 3) = 0" by (simp add: example_defs)
  have off0: "py (calculateOffset example_distance example_service 0) = 0"
    by (simp add: example_defs calculateOffset_def calculateOffset_step_def)
  have r0: "\<not> repels example_distance example_service 3 0"
    by (simp add: example_defs repels_def)
  have r1: "\<not> repels example_distance example_service 3 1"
    by (simp add: example_defs repels_def)
  have r3: "\<not> repels example_distance example_service 3 3"
    by (simp add: repels_def)
  have none: "\<forall>v\<in>set (group_windows (group_heap example_service 0)).
      \<not> repels example_distance example_service 3 v"
    using r0 r1 r3 by (simp add: example_group_0)
  note a = explodeGroup_zero_offset_stays
    [OF example_target_a many dist mem0 back0, of example_distance]
  note b = explodeGroup_zero_offset_stays
    [OF example_target_a many dist mem3 back3, of example_distance]
  from a off0 have "py (center (getState (window_heap
        (explodeGroup example_distance \<lparr>uuid = ''app'', name = ''a''\<rparr> example_service) 0)))
       = py (center (getState (window_heap example_service 0)))" by blast
  moreover from b none have "getState (window_heap
        (explodeGroup example_distance \<lparr>uuid = ''app'', name = ''a''\<rparr> example_service) 3)
       = getState (window_heap example_service 3)" by blast
  ultimately show ?thesis using off0 r0 r1 by blast
qed

section \<open>Listeners only shrink the registry\<close>

lemma shrinks_refl: "distinct (groups s) \<Longrightarrow> shrinks s s"
  by (simp add: shrinks_def)

lemma shrinks_trans:
  assumes a: "shrinks s s'" and b: "shrinks s' s''"
  shows "shrinks s s''"
proof -
  from a have a1: "window_heap s' = window_heap s" "windows s' = windows s"
      "next_group s' = next_group s" "view s' = view s"
    and a2: "set (groups s') \<subseteq> set (groups s)"
    and a3: "\<And>g. group_windows (group_heap s' g) = group_windows (group_heap s g)"
    and a4: "\<And>g. g \<in> set (groups s') \<Longrightarrow> group_heap s' g = group_heap s g"
    and a5: "\<And>g. g \<in> set (groups s) \<Longrightarrow> g \<notin> set (groups s')
               \<Longrightarrow> group_windows (group_heap s g) = []"
    by (simp_all add: shrinks_def)
  from b have b1: "window_heap s'' = window_heap s'" "windows s'' = windows s'"
      "next_group s'' = next_group s'" "view s'' = view s'"
    and b0: "distinct (groups s'')"
    and b2: "set (groups s'') \<subseteq> set (groups s')"
    and b3: "\<And>g. group_windows (group_heap s'' g) = group_windows (group_heap s' g)"
    and b4: "\<And>g. g \<in> set (groups s'') \<Longrightarrow> group_heap s'' g = group_heap s' g"
    and b5: "\<And>g. g \<in> set (groups s') \<Longrightarrow> g \<notin> set (groups s'')
               \<Longrightarrow> group_windows (group_heap s' g) = []"
    by (simp_all add: shrinks_def)
  have c2: "set (groups s'') \<subseteq> set (groups s)" using a2 b2 by (rule order_trans [rotated])
  have c4: "\<forall>g\<in>set (groups s''). group_heap s'' g = group_heap s g"
  proof
    fix g assume g: "g \<in> set (groups s'')"
    then have "g \<in> set (groups s')" using b2 by (rule subsetD [rotated])
    then show "group_heap s'' g = group_heap s g" using a4 b4 g by simp
  qed
  have c5: "\<forall>g\<in>set (groups s). g \<notin> set (groups s'') \<longrightarrow> group_windows (group_heap s g) = []"
  proof (intro ballI impI)
    fix g assume g: "g \<in> set (groups s)" and n: "g \<notin> set (groups s'')"
    show "group_windows (group_heap s g) = []"
    proof (cases "g \<in> set (groups s')")
      case True
      then have "group_windows (group_heap s' g) = []" using n by (rule b5)
      then show ?thesis by (simp add: a3)
    next
      case False
      with g show ?thesis by (rule a5)
    qed
  qed
  show ?thesis
    unfolding shrinks_def using a1 b1 b0 c2 a3 b3 c4 c5 by simp
qed

lemma shrinks_emitted: "distinct (groups s) \<Longrightarrow> shrinks s (s\<lparr>emitted := m\<rparr>)"
  by (simp add: shrinks_def)

lemma groups_removeGroup:
  "groups (removeGroup g s) =
     (if group_length s g = 0 \<and> g \<in> set (groups s) then remove1 g (groups s) else groups s)"
  by (simp add: removeGroup_def Let_def)

lemma group_windows_removeGroup [simp]:
  "group_windows (group_heap (removeGroup g s) g') = group_windows (group_heap s g')"
  by (simp add: removeGroup_def Let_def)

lemma group_heap_removeGroup_other:
  "g' \<noteq> g \<Longrightarrow> group_heap (removeGroup g s) g' = group_heap s g'"
  by (simp add: removeGroup_def Let_def)

lemma fields_removeGroup [simp]:
  "windows (removeGroup g s) = windows s"
  "next_group (removeGroup g s) = next_group s"
  "view (removeGroup g s) = view s"
  by (simp_all add: removeGroup_def Let_def)

lemma shrinks_removeGroup:
  assumes d: "distinct (groups s)"
  shows "shrinks s (removeGroup g s)"
proof (cases "group_length s g = 0 \<and> g \<in> set (groups s)")
  case False
  then have "removeGroup g s = s" by (simp only: removeGroup_def if_False)
  then show ?thesis using d by (simp add: shrinks_refl)
next
  case True
  then have gr: "groups (removeGroup g s) = remove1 g (groups s)"
    by (simp add: groups_removeGroup)
  have m: "set (remove1 g (groups s)) = set (groups s) - {g}"
    using d by (rule set_remove1_eq)
  have h: "\<forall>g'\<in>set (groups (removeGroup g s)). group_heap (removeGroup g s) g' = group_heap s g'"
    unfolding gr m by (simp add: group_heap_removeGroup_other)
  have e: "\<forall>g'\<in>set (groups s). g' \<notin> set (groups (removeGroup g s))
      \<longrightarrow> group_windows (group_heap s g') = []"
    unfolding gr m using True by simp
  show ?thesis
    unfolding shrinks_def using d h e by (simp add: gr m) 
qed

lemma shrinks_call_handler: "distinct (groups s) \<Longrightarrow> shrinks s (call_handler h g w s)"
proof (cases h)
  case onWindowRemovedFromGroup_h
  assume d: "distinct (groups s)"
  have a: "shrinks s (if group_length s g = 0 then removeGroup g s else s)"
    using d by (simp add: shrinks_removeGroup shrinks_refl)
  then have "distinct (groups (if group_length s g = 0 then removeGroup g s else s))"
    by (simp add: shrinks_def)
  then have "shrinks (if group_length s g = 0 then removeGroup g s else s)
     (call_handler h g w s)"
    unfolding onWindowRemovedFromGroup_h call_handler.simps onWindowRemovedFromGroup_def
      sendWindowRemovedMessage_def
    by (rule shrinks_emitted)
  with a show ?thesis by (rule shrinks_trans)
qed (simp_all add: shrinks_refl validateGroup_def sendWindowAddedMessage_def shrinks_emitted)

lemma shrinks_emit: "distinct (groups s) \<Longrightarrow> shrinks s (emit hs g w s)"
proof (induction hs arbitrary: s)
  case Nil
  then show ?case by (simp add: emit_def shrinks_refl)
next
  case (Cons h hs)
  have a: "shrinks s (call_handler h g w s)"
    using Cons.prems by (rule shrinks_call_handler)
  then have "distinct (groups (call_handler h g w s))" by (simp add: shrinks_def)
  then have "shrinks (call_handler h g w s) (emit hs g w (call_handler h g w s))"
    by (rule Cons.IH)
  with a have "shrinks s (emit hs g w (call_handler h g w s))" by (rule shrinks_trans)
  then show ?case by (simp add: emit_def)
qed

lemma shrinks_consistent:
  assumes a: "shrinks s s'" and c: "consistent s"
  shows "consistent s'"
proof -
  from a have a1: "window_heap s' = window_heap s" "next_group s' = next_group s"
    and a0: "distinct (groups s')"
    and a2: "set (groups s') \<subseteq> set (groups s)"
    and a4: "\<And>g. g \<in> set (groups s') \<Longrightarrow> group_heap s' g = group_heap s g"
    by (simp_all add: shrinks_def)
  have "\<forall>g\<in>set (groups s').
            g < next_group s'
            \<and> wired_group (group_heap s' g)
            \<and> distinct (group_windows (group_heap s' g))
            \<and> (\<forall>w\<in>set (group_windows (group_heap s' g)). getGroup (window_heap s' w) = g)"
  proof
    fix g assume g: "g \<in> set (groups s')"
    then have g0: "g \<in> set (groups s)" using a2 by (rule subsetD [rotated])
    from c g0 have "g < next_group s
            \<and> wired_group (group_heap s g)
            \<and> distinct (group_windows (group_heap s g))
            \<and> (\<forall>w\<in>set (group_windows (group_heap s g)). getGroup (window_heap s w) = g)"
      by (simp add: consistent_def)
    then show "g < next_group s'
            \<and> wired_group (group_heap s' g)
            \<and> distinct (group_windows (group_heap s' g))
            \<and> (\<forall>w\<in>set (group_windows (group_heap s' g)). getGroup (window_heap s' w) = g)"
      by (simp add: a1 a4 [OF g])
  qed
  with a0 show ?thesis by (simp add: consistent_def)
qed

section \<open>The steps of setGroup keep the registry consistent\<close>

lemma wired_group_windows [simp]: "wired_group (G\<lparr>group_windows := ws\<rparr>) = wired_group G"
  by (simp add: wired_group_def)

lemma wired_group_wired [simp]: "wired_group (wired ws)"
  by (simp add: wired_group_def wired_def)

lemma fields_addGroup [simp]:
  "groups (snd (addGroup s)) = groups s @ [next_group s]"
  "group_heap (snd (addGroup s)) = (group_heap s)(next_group s := wired [])"
  "next_group (snd (addGroup s)) = Suc (next_group s)"
  "windows (snd (addGroup s)) = windows s"
  "view (snd (addGroup s)) = view s"
  by (simp_all add: addGroup_def Let_def wired_def new_SnapGroup_def signal_add_def)

lemma fields_unlink_window [simp]:
  "groups (unlink_window w g2 off hs s) = groups s"
  "next_group (unlink_window w g2 off hs s) = next_group s"
  "windows (unlink_window w g2 off hs s) = windows s"
  "view (unlink_window w g2 off hs s) = view s"
  "window_heap (unlink_window w g2 off hs s) =
     (window_heap s)(w := (window_heap s w)\<lparr>getGroup := g2,
        getState := transformState off hs (getState (window_heap s w))\<rparr>)"
  "group_heap (unlink_window w g2 off hs s) =
     (group_heap s)(getGroup (window_heap s w) :=
        (group_heap s (getGroup (window_heap s w)))
          \<lparr>group_windows := remove1 w (group_windows (group_heap s (getGroup (window_heap s w))))\<rparr>)"
  by (simp_all add: unlink_window_def Let_def)

lemma fields_link_window [simp]:
  "groups (link_window w g2 s) = groups s"
  "next_group (link_window w g2 s) = next_group s"
  "windows (link_window w g2 s) = windows s"
  "view (link_window w g2 s) = view s"
  "window_heap (link_window w g2 s) = window_heap s"
  "group_heap (link_window w g2 s) =
     (group_heap s)(g2 := (group_heap s g2)\<lparr>group_windows := group_windows (group_heap s g2) @ [w]\<rparr>)"
  by (simp_all add: link_window_def Let_def)

lemma fields_offsetBy [simp]:
  "groups (offsetBy w d s) = groups s"
  "next_group (offsetBy w d s) = next_group s"
  "windows (offsetBy w d s) = windows s"
  "view (offsetBy w d s) = view s"
  "group_heap (offsetBy w d s) = group_heap s"
  "getGroup (window_heap (offsetBy w d s) v) = getGroup (window_heap s v)"
  by (simp_all add: offsetBy_def Let_def)

lemma consistentD:
  assumes "consistent s" and "g \<in> set (groups s)"
  shows "g < next_group s" and "wired_group (group_heap s g)"
    and "distinct (group_windows (group_heap s g))"
    and "\<And>w. w \<in> set (group_windows (group_heap s g)) \<Longrightarrow> getGroup (window_heap s w) = g"
  using assms by (simp_all add: consistent_def)

lemma consistent_distinct: "consistent s \<Longrightarrow> distinct (groups s)"
  by (simp add: consistent_def)

lemma consistentI:
  assumes "distinct (groups s)"
    and "\<And>g. g \<in> set (groups s) \<Longrightarrow> g < next_group s"
    and "\<And>g. g \<in> set (groups s) \<Longrightarrow> wired_group (group_heap s g)"
    and "\<And>g. g \<in> set (groups s) \<Longrightarrow> distinct (group_windows (group_heap s g))"
    and "\<And>g w. g \<in> set (groups s) \<Longrightarrow> w \<in> set (group_windows (group_heap s g))
           \<Longrightarrow> getGroup (window_heap s w) = g"
  shows "consistent s"
  using assms by (simp add: consistent_def)

lemma absent_unlink:
  assumes c: "consistent s" and g: "g \<in> set (groups s)"
  shows "w \<notin> set (group_windows (group_heap (unlink_window w g2 off hs s) g))"
proof (cases "g = getGroup (window_heap s w)")
  case True
  have "distinct (group_windows (group_heap s g))" using c g by (rule consistentD)
  then show ?thesis using True by simp
next
  case False
  have "w \<notin> set (group_windows (group_heap s g))"
  proof
    assume "w \<in> set (group_windows (group_heap s g))"
    with c g have "getGroup (window_heap s w) = g" by (rule consistentD)
    with False show False by simp
  qed
  with False show ?thesis by simp
qed

lemma consistent_unlink:
  assumes c: "consistent s"
  shows "consistent (unlink_window w g2 off hs s)"
proof (rule consistentI)
  show "distinct (groups (unlink_window w g2 off hs s))"
    using c by (simp add: consistent_distinct)
next
  fix g assume "g \<in> set (groups (unlink_window w g2 off hs s))"
  then have g: "g \<in> set (groups s)" by simp
  show "g < next_group (unlink_window w g2 off hs s)"
    using consistentD(1) [OF c g] by auto
  show "wired_group (group_heap (unlink_window w g2 off hs s) g)"
    using consistentD(2) [OF c g] by auto
  show "distinct (group_windows (group_heap (unlink_window w g2 off hs s) g))"
    using consistentD(3) [OF c g] by auto
next
  fix g v assume "g \<in> set (groups (unlink_window w g2 off hs s))"
    and v: "v \<in> set (group_windows (group_heap (unlink_window w g2 off hs s) g))"
  then have g: "g \<in> set (groups s)" by simp
  have vw: "v \<noteq> w" using absent_unlink [OF c g] v by blast
  moreover have "v \<in> set (group_windows (group_heap s g))"
    using v vw by (auto split: if_splits)
  then have "getGroup (window_heap s v) = g" using c g by (intro consistentD(4))
  ultimately show "getGroup (window_heap (unlink_window w g2 off hs s) v) = g" by simp
qed

lemma consistent_link:
  assumes c: "consistent s"
    and b: "getGroup (window_heap s w) = g2"
    and a: "\<And>g. g \<in> set (groups s) \<Longrightarrow> w \<notin> set (group_windows (group_heap s g))"
  shows "consistent (link_window w g2 s)"
proof (rule consistentI)
  show "distinct (groups (link_window w g2 s))"
    using c by (simp add: consistent_distinct)
next
  fix g assume "g \<in> set (groups (link_window w g2 s))"
  then have g: "g \<in> set (groups s)" by simp
  show "g < next_group (link_window w g2 s)"
    using consistentD(1) [OF c g] by auto
  show "wired_group (group_heap (link_window w g2 s) g)"
    using consistentD(2) [OF c g] by auto
  show "distinct (group_windows (group_heap (link_window w g2 s) g))"
    using consistentD(3) [OF c g] a [OF g] by auto
next
  fix g v assume "g \<in> set (groups (link_window w g2 s))"
    and v: "v \<in> set (group_windows (group_heap (link_window w g2 s) g))"
  then have g: "g \<in> set (groups s)" by simp
  show "getGroup (window_heap (link_window w g2 s) v) = g"
  proof (cases "v \<in> set (group_windows (group_heap s g))")
    case True
    then show ?thesis using consistentD(4) [OF c g] by auto
  next
    case False
    with v have "v = w" and "g = g2" by (auto split: if_splits)
    then show ?thesis using b by simp
  qed
qed

lemma consistent_addGroup:
  assumes c: "consistent s"
  shows "consistent (snd (addGroup s))"
proof (rule consistentI)
  have "next_group s \<notin> set (groups s)"
    using consistentD(1) [OF c] by blast
  then show "distinct (groups (snd (addGroup s)))"
    using c by (simp add: consistent_distinct)
next
  fix g assume g: "g \<in> set (groups (snd (addGroup s)))"
  show "g < next_group (snd (addGroup s))"
    using g consistentD(1) [OF c] by (auto simp: less_Suc_eq)
  show "wired_group (group_heap (snd (addGroup s)) g)"
    using g consistentD(2) [OF c] by auto
  show "distinct (group_windows (group_heap (snd (addGroup s)) g))"
    using g consistentD(3) [OF c] by (auto simp: wired_def)
next
  fix g v assume g: "g \<in> set (groups (snd (addGroup s)))"
    and v: "v \<in> set (group_windows (group_heap (snd (addGroup s)) g))"
  from g v have "g \<in> set (groups s)" and "v \<in> set (group_windows (group_heap s g))"
    by (auto simp: wired_def split: if_splits)
  then show "getGroup (window_heap (snd (addGroup s)) v) = g"
    using consistentD(4) [OF c] by simp
qed

lemma consistent_offsetBy: "consistent s \<Longrightarrow> consistent (offsetBy w d s)"
  by (simp add: consistent_def)

lemma emit_removed_wired:
  "wired_group (group_heap s g) \<Longrightarrow>
   emit (onWindowRemoved (group_heap s g)) g w s = onWindowRemovedFromGroup g w s"
  by (simp add: emit_def wired_group_def)

lemma emit_added_wired:
  "wired_group (group_heap s g) \<Longrightarrow>
   emit (onWindowAdded (group_heap s g)) g w s = sendWindowAddedMessage g w s"
  by (simp add: emit_def wired_group_def)

lemma unwired_removeGroup:
  assumes "wired_group (group_heap s g)" and "group_length s g = 0" and "g \<in> set (groups s)"
  shows "unwired_group (group_heap (removeGroup g s) g)"
  using assms
  by (simp add: removeGroup_def Let_def wired_group_def unwired_group_def signal_remove_def)

lemma fields_sendWindowRemovedMessage [simp]:
  "groups (sendWindowRemovedMessage g w s) = groups s"
  "group_heap (sendWindowRemovedMessage g w s) = group_heap s"
  "next_group (sendWindowRemovedMessage g w s) = next_group s"
  "windows (sendWindowRemovedMessage g w s) = windows s"
  "view (sendWindowRemovedMessage g w s) = view s"
  by (simp_all add: sendWindowRemovedMessage_def)

lemma fields_sendWindowAddedMessage [simp]:
  "groups (sendWindowAddedMessage g w s) = groups s"
  "group_heap (sendWindowAddedMessage g w s) = group_heap s"
  "next_group (sendWindowAddedMessage g w s) = next_group s"
  "windows (sendWindowAddedMessage g w s) = windows s"
  "view (sendWindowAddedMessage g w s) = view s"
  "window_heap (sendWindowAddedMessage g w s) = window_heap s"
  by (simp_all add: sendWindowAddedMessage_def)

lemma removed_when_empty:
  assumes d: "distinct (groups s)" and g: "g \<in> set (groups s)"
    and wi: "wired_group (group_heap s g)" and e: "group_length s g = 0"
  shows "g \<notin> set (groups (emit (onWindowRemoved (group_heap s g)) g w s))"
    and "unwired_group (group_heap (emit (onWindowRemoved (group_heap s g)) g w s) g)"
proof -
  have eq: "emit (onWindowRemoved (group_heap s g)) g w s =
      sendWindowRemovedMessage g w (removeGroup g s)"
    using e by (simp add: emit_removed_wired [OF wi] onWindowRemovedFromGroup_def)
  show "g \<notin> set (groups (emit (onWindowRemoved (group_heap s g)) g w s))"
    unfolding eq using d g e by (simp add: groups_removeGroup)
  show "unwired_group (group_heap (emit (onWindowRemoved (group_heap s g)) g w s) g)"
    unfolding eq using unwired_removeGroup [OF wi e g] by simp
qed

lemma shrinks_nonempty:
  assumes a: "shrinks s s'" and n: "groups_nonempty s"
  shows "groups_nonempty s'"
  unfolding groups_nonempty_def
proof
  fix g assume g: "g \<in> set (groups s')"
  from a have "set (groups s') \<subseteq> set (groups s)"
    and l: "group_windows (group_heap s' g) = group_windows (group_heap s g)"
    by (simp_all add: shrinks_def)
  with g have "g \<in> set (groups s)" by blast
  with n have "group_windows (group_heap s g) \<noteq> []" by (simp add: groups_nonempty_def)
  with l show "group_windows (group_heap s' g) \<noteq> []" by simp
qed

lemma setGroup_stages:
  "setGroup w g2 off hs s =
     emit (onWindowAdded (group_heap
         (link_window w g2
            (emit (onWindowRemoved (group_heap (unlink_window w g2 off hs s)
                (getGroup (window_heap s w)))) (getGroup (window_heap s w)) w
               (unlink_window w g2 off hs s))) g2)) g2 w
       (link_window w g2
          (emit (onWindowRemoved (group_heap (unlink_window w g2 off hs s)
               (getGroup (window_heap s w)))) (getGroup (window_heap s w)) w
             (unlink_window w g2 off hs s)))"
  by (simp only: setGroup_def Let_def)

lemma consistent_setGroup:
  assumes c: "consistent s"
  shows "consistent (setGroup w g2 off hs s)"
proof -
  define old where "old = getGroup (window_heap s w)"
  define s2 where "s2 = unlink_window w g2 off hs s"
  define s3 where "s3 = emit (onWindowRemoved (group_heap s2 old)) old w s2"
  define s4 where "s4 = link_window w g2 s3"
  define s5 where "s5 = emit (onWindowAdded (group_heap s4 g2)) g2 w s4"
  have eq: "setGroup w g2 off hs s = s5"
    by (simp only: setGroup_stages s5_def s4_def s3_def s2_def old_def)
  have c2: "consistent s2" unfolding s2_def using c by (rule consistent_unlink)
  have sh23: "shrinks s2 s3"
    unfolding s3_def using c2 by (intro shrinks_emit consistent_distinct)
  have c3: "consistent s3" using sh23 c2 by (rule shrinks_consistent)
  have wh3: "window_heap s3 = window_heap s2" using sh23 by (simp add: shrinks_def)
  have b: "getGroup (window_heap s3 w) = g2" by (simp add: wh3 s2_def)
  have a: "w \<notin> set (group_windows (group_heap s3 g))" if g: "g \<in> set (groups s3)" for g
  proof -
    from sh23 have "set (groups s3) \<subseteq> set (groups s2)"
      and l: "group_windows (group_heap s3 g) = group_windows (group_heap s2 g)"
      by (simp_all add: shrinks_def)
    with g have "g \<in> set (groups s)" by (auto simp: s2_def)
    with c have "w \<notin> set (group_windows (group_heap s2 g))"
      unfolding s2_def by (rule absent_unlink)
    with l show ?thesis by simp
  qed
  have c4: "consistent s4" unfolding s4_def using c3 b a by (rule consistent_link)
  have "shrinks s4 s5"
    unfolding s5_def using c4 by (intro shrinks_emit consistent_distinct)
  then have "consistent s5" using c4 by (rule shrinks_consistent)
  then show ?thesis by (simp only: eq)
qed

lemma nonempty_setGroup:
  assumes c: "consistent s"
    and ne: "\<And>g. g \<in> set (groups s) \<Longrightarrow> g \<noteq> g2 \<Longrightarrow> group_windows (group_heap s g) \<noteq> []"
  shows "groups_nonempty (setGroup w g2 off hs s)"
proof -
  define old where "old = getGroup (window_heap s w)"
  define s2 where "s2 = unlink_window w g2 off hs s"
  define s3 where "s3 = emit (onWindowRemoved (group_heap s2 old)) old w s2"
  define s4 where "s4 = link_window w g2 s3"
  define s5 where "s5 = emit (onWindowAdded (group_heap s4 g2)) g2 w s4"
  have eq: "setGroup w g2 off hs s = s5"
    by (simp only: setGroup_stages s5_def s4_def s3_def s2_def old_def)
  have c2: "consistent s2" unfolding s2_def using c by (rule consistent_unlink)
  have sh23: "shrinks s2 s3"
    unfolding s3_def using c2 by (intro shrinks_emit consistent_distinct)
  have c3: "consistent s3" using sh23 c2 by (rule shrinks_consistent)
  have d4: "distinct (groups s4)" unfolding s4_def using c3 by (simp add: consistent_distinct)
  have sh45: "shrinks s4 s5" unfolding s5_def using d4 by (rule shrinks_emit)
  have "group_windows (group_heap s5 g) \<noteq> []" if g5: "g \<in> set (groups s5)" for g
  proof -
    from sh45 have "set (groups s5) \<subseteq> set (groups s4)"
      and l5: "group_windows (group_heap s5 g) = group_windows (group_heap s4 g)"
      by (simp_all add: shrinks_def)
    with g5 have g3: "g \<in> set (groups s3)" by (auto simp: s4_def)
    from sh23 have "set (groups s3) \<subseteq> set (groups s2)"
      and l3: "group_windows (group_heap s3 g) = group_windows (group_heap s2 g)"
      by (simp_all add: shrinks_def)
    with g3 have g2: "g \<in> set (groups s2)" by blast
    then have g0: "g \<in> set (groups s)" by (simp add: s2_def)
    show ?thesis
    proof (cases "g = g2")
      case True
      have "group_windows (group_heap s4 g2) \<noteq> []" by (simp add: s4_def)
      with l5 True show ?thesis by simp
    next
      case False
      then have l4: "group_windows (group_heap s4 g) = group_windows (group_heap s2 g)"
        by (simp add: s4_def l3)
      have "group_windows (group_heap s2 g) \<noteq> []"
      proof (cases "g = old")
        case False
        then have "group_windows (group_heap s2 g) = group_windows (group_heap s g)"
          by (simp add: s2_def old_def)
        with ne [OF g0 \<open>g \<noteq> g2\<close>] show ?thesis by simp
      next
        case True
        show ?thesis
        proof
          assume e: "group_windows (group_heap s2 g) = []"
          have "old \<notin> set (groups s3)"
            unfolding s3_def
          proof (rule removed_when_empty)
            show "distinct (groups s2)" using c2 by (rule consistent_distinct)
            show "old \<in> set (groups s2)" using g2 True by simp
            then show "wired_group (group_heap s2 old)" using c2 by (intro consistentD(2))
            show "group_length s2 old = 0" using e True by simp
          qed
          with g3 True show False by simp
        qed
      qed
      then show ?thesis by (simp add: l5 l4)
    qed
  qed
  then show ?thesis by (simp add: eq groups_nonempty_def)
qed

section \<open>The operations keep the registry's invariants\<close>

lemma explode_window_unfold:
  "explode_window (w, off) s =
     offsetBy w (half_nudge off) (setGroup w (next_group s) None None (snd (addGroup s)))"
  by (simp add: explode_window_def Let_def case_prod_unfold half_nudge_def)

lemma groups_nonempty_offsetBy [simp]:
  "groups_nonempty (offsetBy w d s) = groups_nonempty s"
  by (simp add: groups_nonempty_def)

lemma invariant_detach:
  assumes c: "consistent s" and n: "groups_nonempty s"
  shows "consistent (setGroup w (next_group s) off hs (snd (addGroup s)))"
    and "groups_nonempty (setGroup w (next_group s) off hs (snd (addGroup s)))"
proof -
  have ca: "consistent (snd (addGroup s))" using c by (rule consistent_addGroup)
  then show "consistent (setGroup w (next_group s) off hs (snd (addGroup s)))"
    by (rule consistent_setGroup)
  show "groups_nonempty (setGroup w (next_group s) off hs (snd (addGroup s)))"
    using ca
  proof (rule nonempty_setGroup)
    fix g assume "g \<in> set (groups (snd (addGroup s)))" and "g \<noteq> next_group s"
    then have "g \<in> set (groups s)"
      and "group_heap (snd (addGroup s)) g = group_heap s g" by simp_all
    with n show "group_windows (group_heap (snd (addGroup s)) g) \<noteq> []"
      by (simp add: groups_nonempty_def)
  qed
qed

lemma invariant_explode_window:
  assumes c: "consistent s" and n: "groups_nonempty s"
  shows "consistent (explode_window wo s) \<and> groups_nonempty (explode_window wo s)"
proof -
  obtain w off where wo: "wo = (w, off)" by (cases wo)
  show ?thesis
    unfolding wo explode_window_unfold
    using invariant_detach [OF c n, of w None None]
    by (simp add: consistent_offsetBy)
qed

lemma invariant_fold_explode:
  "consistent s \<Longrightarrow> groups_nonempty s \<Longrightarrow>
   consistent (fold explode_window wos s) \<and> groups_nonempty (fold explode_window wos s)"
proof (induction wos arbitrary: s)
  case Nil
  then show ?case by simp
next
  case (Cons wo wos)
  from Cons.prems have "consistent (explode_window wo s) \<and> groups_nonempty (explode_window wo s)"
    by (rule invariant_explode_window)
  then have "consistent (fold explode_window wos (explode_window wo s))
      \<and> groups_nonempty (fold explode_window wos (explode_window wo s))"
    using Cons.IH by blast
  then show ?case by simp
qed

lemma invariant_explodeGroup:
  assumes c: "consistent s" and n: "groups_nonempty s"
  shows "consistent (explodeGroup distanceFn targetWindow s)
       \<and> groups_nonempty (explodeGroup distanceFn targetWindow s)"
proof (cases "find (\<lambda>g. length (filter (identity_matches targetWindow s)
                        (group_windows (group_heap s g))) > 0) (groups s)")
  case None
  then have "explodeGroup distanceFn targetWindow s = s"
    by (simp only: explodeGroup_def option.case)
  with c n show ?thesis by simp
next
  case (Some g)
  show ?thesis
  proof (cases "group_length s g > 1")
    case True
    then have "explodeGroup distanceFn targetWindow s =
        fold explode_window (zip (group_windows (group_heap s g))
          (map (calculateOffset distanceFn s) (group_windows (group_heap s g)))) s"
      by (simp only: explodeGroup_def Some option.case if_True Let_def)
    then show ?thesis using invariant_fold_explode [OF c n] by simp
  next
    case False
    then have "explodeGroup distanceFn targetWindow s = s"
      by (simp only: explodeGroup_def Some option.case if_False)
    with c n show ?thesis by simp
  qed
qed

lemma invariant_undock:
  assumes c: "consistent s" and n: "groups_nonempty s"
  shows "consistent (undock distanceFn target s) \<and> groups_nonempty (undock distanceFn target s)"
proof (cases "find (identity_matches target s) (windows s)")
  case None
  then have "undock distanceFn target s = s" by (simp add: undock_def)
  with c n show ?thesis by simp
next
  case (Some w)
  define d where "d = \<lparr>px = sgn (if px (calculateOffset distanceFn s w) \<noteq> 0
                            then px (calculateOffset distanceFn s w) else 1) * UNDOCK_MOVE_SCALE,
                 py = sgn (if py (calculateOffset distanceFn s w) \<noteq> 0
                            then py (calculateOffset distanceFn s w) else 1) * UNDOCK_MOVE_SCALE\<rparr>"
  define s3 where "s3 = offsetBy w d (setGroup w (next_group s) None None (snd (addGroup s)))"
  define g where "g = getGroup (window_heap s w)"
  have eq: "undock distanceFn target s = emit (onModified (group_heap s3 g)) g w s3"
    by (simp add: undock_def Some Let_def case_prod_unfold s3_def d_def g_def)
  have c3: "consistent s3" and n3: "groups_nonempty s3"
    unfolding s3_def using invariant_detach [OF c n, of w None None]
    by (simp_all add: consistent_offsetBy)
  have "shrinks s3 (emit (onModified (group_heap s3 g)) g w s3)"
    using c3 by (intro shrinks_emit consistent_distinct)
  then show ?thesis
    unfolding eq using c3 n3 by (blast intro: shrinks_consistent shrinks_nonempty)
qed

lemma invariant_apply_to_window:
  assumes c: "consistent s" and n: "groups_nonempty s"
  shows "consistent (apply_to_window t w s) \<and> groups_nonempty (apply_to_window t w s)"
proof -
  have ne: "\<And>g. g \<in> set (groups s) \<Longrightarrow> g \<noteq> target_group t
      \<Longrightarrow> group_windows (group_heap s g) \<noteq> []"
    using n by (simp add: groups_nonempty_def)
  show ?thesis
    unfolding apply_to_window_def
    using consistent_setGroup [OF c] nonempty_setGroup [OF c ne] by simp
qed

lemma invariant_fold_apply:
  "consistent s \<Longrightarrow> groups_nonempty s \<Longrightarrow>
   consistent (fold (apply_to_window t) ws s) \<and> groups_nonempty (fold (apply_to_window t) ws s)"
proof (induction ws arbitrary: s)
  case Nil
  then show ?case by simp
next
  case (Cons w ws)
  from Cons.prems have "consistent (apply_to_window t w s)
      \<and> groups_nonempty (apply_to_window t w s)"
    by (rule invariant_apply_to_window)
  then have "consistent (fold (apply_to_window t) ws (apply_to_window t w s))
      \<and> groups_nonempty (fold (apply_to_window t) ws (apply_to_window t w s))"
    using Cons.IH by blast
  then show ?case by simp
qed

lemma invariant_view [simp]:
  "consistent (s\<lparr>view := v\<rparr>) = consistent s"
  "groups_nonempty (s\<lparr>view := v\<rparr>) = groups_nonempty s"
  by (simp_all add: consistent_def groups_nonempty_def)

lemma invariant_applySnapTarget:
  assumes c: "consistent s" and n: "groups_nonempty s"
  shows "consistent (applySnapTarget getSnapTarget foo activeGroup s)
       \<and> groups_nonempty (applySnapTarget getSnapTarget foo activeGroup s)"
proof (cases "getSnapTarget s (groups s) activeGroup")
  case None
  then show ?thesis using c n by (simp add: applySnapTarget_def)
next
  case (Some t)
  show ?thesis
  proof (cases "validity t = VALID \<and> \<not> foo")
    case True
    then show ?thesis
      using invariant_fold_apply [OF c n, of t "group_windows (group_heap s activeGroup)"]
      by (simp add: applySnapTarget_def Some)
  next
    case False
    then show ?thesis using c n by (auto simp: applySnapTarget_def Some)
  qed
qed

lemma setGroup_last_window_removes_group:
  assumes c: "consistent s" and g: "g \<in> set (groups s)"
    and b: "getGroup (window_heap s w) = g"
    and l: "group_windows (group_heap s g) = [w]"
  shows "g \<notin> set (groups (setGroup w g2 off hs s))"
proof -
  define s2 where "s2 = unlink_window w g2 off hs s"
  define s3 where "s3 = emit (onWindowRemoved (group_heap s2 g)) g w s2"
  define s4 where "s4 = link_window w g2 s3"
  define s5 where "s5 = emit (onWindowAdded (group_heap s4 g2)) g2 w s4"
  have eq: "setGroup w g2 off hs s = s5"
    by (simp only: setGroup_stages s5_def s4_def s3_def s2_def b)
  have c2: "consistent s2" unfolding s2_def using c by (rule consistent_unlink)
  have g2: "g \<in> set (groups s2)" using g by (simp add: s2_def)
  have e: "group_length s2 g = 0" using l b by (simp add: s2_def)
  have n3: "g \<notin> set (groups s3)"
    unfolding s3_def using consistent_distinct [OF c2] g2 consistentD(2) [OF c2 g2] e
    by (rule removed_when_empty)
  have sh23: "shrinks s2 s3"
    unfolding s3_def using c2 by (intro shrinks_emit consistent_distinct)
  then have "distinct (groups s4)" by (simp add: s4_def shrinks_def)
  then have "shrinks s4 s5" unfolding s5_def by (rule shrinks_emit)
  then have "set (groups s5) \<subseteq> set (groups s3)" by (simp add: shrinks_def s4_def)
  with n3 show ?thesis unfolding eq by blast
qed

lemma example_consistent: "consistent example_service"
  by (simp add: consistent_def example_defs wired_group_def)

lemma example_nonempty: "groups_nonempty example_service"
  by (simp add: groups_nonempty_def example_defs)

section \<open>One round of the explode loop\<close>

lemma consistent_explode_window:
  assumes c: "consistent s"
  shows "consistent (explode_window wo s)"
proof -
  obtain w off where wo: "wo = (w, off)" by (cases wo)
  have "consistent (setGroup w (next_group s) None None (snd (addGroup s)))"
    using c by (intro consistent_setGroup consistent_addGroup)
  then show ?thesis
    unfolding wo explode_window_unfold by (rule consistent_offsetBy)
qed

lemma groups_onWindowRemovedFromGroup:
  "groups (onWindowRemovedFromGroup g w s) =
     (if group_length s g = 0 \<and> g \<in> set (groups s) then remove1 g (groups s) else groups s)"
  by (simp add: onWindowRemovedFromGroup_def groups_removeGroup)

lemma group_heap_onWindowRemovedFromGroup_other:
  "x \<noteq> g \<Longrightarrow> group_heap (onWindowRemovedFromGroup g w s) x = group_heap s x"
  by (simp add: onWindowRemovedFromGroup_def group_heap_removeGroup_other)

lemma group_windows_onWindowRemovedFromGroup [simp]:
  "group_windows (group_heap (onWindowRemovedFromGroup g w s) x) = group_windows (group_heap s x)"
  by (simp add: onWindowRemovedFromGroup_def)

lemma next_group_onWindowRemovedFromGroup [simp]:
  "next_group (onWindowRemovedFromGroup g w s) = next_group s"
  by (simp add: onWindowRemovedFromGroup_def)

lemma explode_window_effect:
  assumes c: "consistent s" and g: "g \<in> set (groups s)"
    and m: "w \<in> set (group_windows (group_heap s g))"
  shows "next_group (explode_window (w, off) s) = Suc (next_group s)"
    and "groups (explode_window (w, off) s) =
       (if remove1 w (group_windows (group_heap s g)) = []
        then remove1 g (groups s) @ [next_group s] else groups s @ [next_group s])"
    and "group_heap (explode_window (w, off) s) (next_group s) = wired [w]"
    and "\<And>x. x \<noteq> g \<Longrightarrow> x \<noteq> next_group s \<Longrightarrow>
           group_heap (explode_window (w, off) s) x = group_heap s x"
    and "group_windows (group_heap (explode_window (w, off) s) g) =
           remove1 w (group_windows (group_heap s g))"
proof -
  define ng where "ng = next_group s"
  define sa where "sa = snd (addGroup s)"
  define s2 where "s2 = unlink_window w ng None None sa"
  define s3 where "s3 = onWindowRemovedFromGroup g w s2"
  define s4 where "s4 = link_window w ng s3"
  define s5 where "s5 = sendWindowAddedMessage ng w s4"
  have gng: "g \<noteq> ng" using consistentD(1) [OF c g] by (simp add: ng_def)
  have b0: "getGroup (window_heap s w) = g"
    using c g m by (rule consistentD(4))
  have b: "getGroup (window_heap sa w) = g"
    using b0 by (simp add: sa_def)
  have h2: "group_heap s2 = (group_heap s)(ng := wired [],
      g := (group_heap s g)\<lparr>group_windows := remove1 w (group_windows (group_heap s g))\<rparr>)"
    using gng by (simp add: s2_def sa_def b0 ng_def)
  have w2: "wired_group (group_heap s2 g)"
    using consistentD(2) [OF c g] by (simp add: h2)
  have e3: "emit (onWindowRemoved (group_heap s2 g)) g w s2 = s3"
    unfolding s3_def using w2 by (rule emit_removed_wired)
  have gr2: "groups s2 = groups s @ [ng]" by (simp add: s2_def sa_def ng_def)
  have gr3: "groups s3 = (if remove1 w (group_windows (group_heap s g)) = []
        then remove1 g (groups s) @ [ng] else groups s @ [ng])"
    using g by (simp add: s3_def groups_onWindowRemovedFromGroup gr2 h2 remove1_append)
  have h3ng: "group_heap s3 ng = wired []"
    using gng by (simp add: s3_def group_heap_onWindowRemovedFromGroup_other h2)
  have h3x: "group_heap s3 x = group_heap s x" if "x \<noteq> g" "x \<noteq> ng" for x
    using that by (simp add: s3_def group_heap_onWindowRemovedFromGroup_other h2)
  have l3g: "group_windows (group_heap s3 g) = remove1 w (group_windows (group_heap s g))"
    by (simp add: s3_def h2)
  have h4ng: "group_heap s4 ng = wired [w]"
    by (simp add: s4_def h3ng wired_def)
  have w4: "wired_group (group_heap s4 ng)" by (simp add: h4ng)
  have e5: "emit (onWindowAdded (group_heap s4 ng)) ng w s4 = s5"
    unfolding s5_def using w4 by (rule emit_added_wired)
  have sg: "setGroup w ng None None sa = s5"
    by (simp only: setGroup_stages b s2_def [symmetric] e3 s4_def [symmetric] e5)
  have eq: "explode_window (w, off) s = offsetBy w (half_nudge off) s5"
    by (simp only: explode_window_unfold ng_def [symmetric] sa_def [symmetric] sg)
  show "next_group (explode_window (w, off) s) = Suc (next_group s)"
    by (simp add: eq s5_def s4_def s3_def s2_def sa_def)
  show "groups (explode_window (w, off) s) =
       (if remove1 w (group_windows (group_heap s g)) = []
        then remove1 g (groups s) @ [next_group s] else groups s @ [next_group s])"
    by (simp add: eq s5_def s4_def gr3 ng_def)
  show "group_heap (explode_window (w, off) s) (next_group s) = wired [w]"
    using h4ng by (simp add: eq s5_def ng_def)
  show "group_heap (explode_window (w, off) s) x = group_heap s x"
    if "x \<noteq> g" "x \<noteq> next_group s" for x
    using that h3x [of x] by (simp add: eq s5_def s4_def ng_def)
  show "group_windows (group_heap (explode_window (w, off) s) g) =
           remove1 w (group_windows (group_heap s g))"
    using gng l3g by (simp add: eq s5_def s4_def)
qed

lemma explode_loop:
  "consistent s \<Longrightarrow> g \<in> set (groups s) \<Longrightarrow>
   group_windows (group_heap s g) = map fst wos \<Longrightarrow> wos \<noteq> [] \<Longrightarrow>
   consistent (fold explode_window wos s) \<and> exploded s g (map fst wos) (fold explode_window wos s)"
proof (induction wos arbitrary: s)
  case Nil
  then show ?case by simp
next
  case (Cons wo rest)
  obtain w off where wo: "wo = (w, off)" by (cases wo)
  note c = Cons.prems(1) and g = Cons.prems(2)
  have l: "group_windows (group_heap s g) = w # map fst rest"
    using Cons.prems(3) by (simp add: wo)
  have m: "w \<in> set (group_windows (group_heap s g))" by (simp add: l)
  have "distinct (group_windows (group_heap s g))" using c g by (rule consistentD)
  then have wn: "w \<notin> set (map fst rest)" and dr: "distinct (map fst rest)"
    by (simp_all add: l)
  have r: "remove1 w (group_windows (group_heap s g)) = map fst rest" by (simp add: l)
  define ng where "ng = next_group s"
  define s1 where "s1 = explode_window (w, off) s"
  have gng: "g \<noteq> ng" using consistentD(1) [OF c g] by (simp add: ng_def)
  have old: "x < ng" if "x \<in> set (groups s)" for x
    using consistentD(1) [OF c that] by (simp add: ng_def)
  have n1: "next_group s1 = Suc ng"
    unfolding s1_def ng_def using c g m by (rule explode_window_effect)
  have gr1: "groups s1 = (if map fst rest = [] then remove1 g (groups s) @ [ng]
      else groups s @ [ng])"
    unfolding s1_def ng_def r [symmetric] using c g m by (rule explode_window_effect)
  have hng: "group_heap s1 ng = wired [w]"
    unfolding s1_def ng_def using c g m by (rule explode_window_effect)
  have hx: "group_heap s1 x = group_heap s x" if "x \<noteq> g" "x \<noteq> ng" for x
    unfolding s1_def using c g m that unfolding ng_def by (rule explode_window_effect)
  have lg: "group_windows (group_heap s1 g) = map fst rest"
    unfolding s1_def r [symmetric] using c g m by (rule explode_window_effect)
  have c1: "consistent s1" unfolding s1_def using c by (rule consistent_explode_window)
  have gw1: "getGroup (window_heap s1 w) = ng"
    by (simp add: s1_def window_heap_explode_window ng_def)
  have ng1: "ng \<in> set (groups s1)" by (simp add: gr1)
  have f: "fold explode_window (wo # rest) s = fold explode_window rest s1"
    by (simp add: wo s1_def)
  show ?case
  proof (cases "rest = []")
    case True
    have d: "distinct (groups s)" using c by (rule consistent_distinct)
    have g1: "g \<notin> set (groups s1)" using d gng by (simp add: gr1 True)
    have keep: "x \<in> set (groups s1) \<and> group_heap s1 x = group_heap s x"
      if "x \<in> set (groups s)" "x \<noteq> g" for x
      using that old [of x] hx [of x] by (auto simp: gr1 True)
    have len: "length (groups s1) + 1 = length (groups s) + 1"
      using g by (simp add: gr1 True length_remove1) (cases "groups s"; simp)
    have "exploded s g [w] s1"
      unfolding exploded_def using g1 gw1 ng1 hng keep len n1
      by (simp add: wired_def ng_def)
    then show ?thesis using c1 by (simp add: True wo s1_def)
  next
    case False
    have g1: "g \<in> set (groups s1)" using g False by (simp add: gr1)
    have ih: "consistent (fold explode_window rest s1)
        \<and> exploded s1 g (map fst rest) (fold explode_window rest s1)"
      using c1 g1 lg False by (rule Cons.IH)
    define s' where "s' = fold explode_window rest s1"
    from ih have c': "consistent s'" and ex: "exploded s1 g (map fst rest) s'"
      by (simp_all add: s'_def)
    from ex have e1: "g \<notin> set (groups s')"
      and e2: "\<And>v. v \<in> set (map fst rest) \<Longrightarrow>
            getGroup (window_heap s' v) \<in> set (groups s')
            \<and> next_group s1 \<le> getGroup (window_heap s' v)
            \<and> group_windows (group_heap s' (getGroup (window_heap s' v))) = [v]"
      and e3: "\<And>x. x \<in> set (groups s1) \<Longrightarrow> x \<noteq> g \<Longrightarrow>
            x \<in> set (groups s') \<and> group_heap s' x = group_heap s1 x"
      and e4: "length (groups s') + 1 = length (groups s1) + length (map fst rest)"
      and e5: "next_group s' = next_group s1 + length (map fst rest)"
      unfolding exploded_def by blast+
    have ww: "window_heap s' w = window_heap s1 w"
      unfolding s'_def using wn by (intro window_heap_explode_other) simp
    have a2: "getGroup (window_heap s' v) \<in> set (groups s')
            \<and> next_group s \<le> getGroup (window_heap s' v)
            \<and> group_windows (group_heap s' (getGroup (window_heap s' v))) = [v]"
      if v: "v \<in> set (map fst (wo # rest))" for v
    proof (cases "v = w")
      case True
      have "ng \<in> set (groups s') \<and> group_heap s' ng = group_heap s1 ng"
        using ng1 gng by (intro e3) simp_all
      then show ?thesis
        by (simp add: True ww gw1 hng wired_def ng_def [symmetric])
    next
      case False
      with v have "v \<in> set (map fst rest)" by (simp add: wo)
      from e2 [OF this] show ?thesis by (simp add: n1 ng_def)
    qed
    have a3: "x \<in> set (groups s') \<and> group_heap s' x = group_heap s x"
      if "x \<in> set (groups s)" "x \<noteq> g" for x
    proof -
      have "x \<in> set (groups s1)" using that by (simp add: gr1 False)
      then have "x \<in> set (groups s') \<and> group_heap s' x = group_heap s1 x"
        using that(2) by (rule e3)
      moreover have "group_heap s1 x = group_heap s x"
        using that old [of x] by (intro hx) simp_all
      ultimately show ?thesis by simp
    qed
    have a4: "length (groups s') + 1 = length (groups s) + length (map fst (wo # rest))"
      using e4 by (simp add: gr1 False)
    have a5: "next_group s' = next_group s + length (map fst (wo # rest))"
      using e5 by (simp add: n1 ng_def)
    have "exploded s g (map fst (wo # rest)) s'"
      unfolding exploded_def using e1 a2 a3 a4 a5 by blast
    then show ?thesis using c' by (simp only: f s'_def) 
  qed
qed

lemma example_explode_groups:
  "groups (explodeGroup example_distance \<lparr>uuid = ''app'', name = ''a''\<rparr> example_service)
     = [1, 2, 3, 4]"
  by (simp add: example_defs explodeGroup_def identity_matches_def calculateOffset_def
      calculateOffset_step_def explode_window_def
      addGroup_def setGroup_def unlink_window_def link_window_def offsetBy_def emit_def
      onWindowRemovedFromGroup_def removeGroup_def signal_remove_def
      sendWindowRemovedMessage_def sendWindowAddedMessage_def signal_add_def Let_def
      transformState_def translate_def UNDOCK_MOVE_SCALE_def)


section \<open>Explode leaves one group for each window\<close>

text \<open>
  C2: when the registry is consistent and \<^verbatim>\<open>explodeGroup\<close> is called with the identity
  of a window of a registered group \<open>g\<close> that has more than one window, then afterwards
  \<open>g\<close> is not registered; every window that \<open>g\<close> had refers to a registered group that
  was created during the call (it was not registered before, its reference is one that
  was unused before) and lists that window only; every other group is registered and
  unchanged; and the registry has one group for each window of \<open>g\<close> in place of \<open>g\<close>.
\<close>

theorem explodeGroup_singletons:
  assumes c: "consistent s"
    and tg: "explode_target s targetWindow g"
    and many: "group_length s g > 1"
  shows "g \<notin> set (groups (explodeGroup distanceFn targetWindow s))
    \<and> (\<forall>w\<in>set (group_windows (group_heap s g)).
          getGroup (window_heap (explodeGroup distanceFn targetWindow s) w)
            \<in> set (groups (explodeGroup distanceFn targetWindow s))
          \<and> getGroup (window_heap (explodeGroup distanceFn targetWindow s) w) \<notin> set (groups s)
          \<and> next_group s \<le> getGroup (window_heap (explodeGroup distanceFn targetWindow s) w)
          \<and> group_windows (group_heap (explodeGroup distanceFn targetWindow s)
                (getGroup (window_heap (explodeGroup distanceFn targetWindow s) w))) = [w])
    \<and> (\<forall>x\<in>set (groups s). x \<noteq> g \<longrightarrow>
          x \<in> set (groups (explodeGroup distanceFn targetWindow s))
          \<and> group_heap (explodeGroup distanceFn targetWindow s) x = group_heap s x)
    \<and> length (groups (explodeGroup distanceFn targetWindow s)) + 1
        = length (groups s) + group_length s g"
proof -
  let ?ws = "group_windows (group_heap s g)"
  let ?wos = "zip ?ws (map (calculateOffset distanceFn s) ?ws)"
  define s' where "s' = explodeGroup distanceFn targetWindow s"
  have e: "s' = fold explode_window ?wos s"
    unfolding s'_def explodeGroup_def explode_target_find [OF tg] using many
    by (simp add: Let_def)
  have g: "g \<in> set (groups s)" using tg by (simp add: explode_target_def)
  have fs: "map fst ?wos = ?ws" by (rule map_fst_zip) simp
  have ne: "?wos \<noteq> []" using many by (cases ?ws) simp_all
  have "exploded s g (map fst ?wos) (fold explode_window ?wos s)"
    using explode_loop [OF c g fs [symmetric] ne] by (rule conjunct2)
  then have ex: "exploded s g ?ws s'" by (simp only: fs e)
  have fresh: "x \<notin> set (groups s)" if "next_group s \<le> x" for x
  proof
    assume "x \<in> set (groups s)"
    with c have "x < next_group s" by (rule consistentD)
    with that show False by simp
  qed
  from ex have "g \<notin> set (groups s')
    \<and> (\<forall>w\<in>set ?ws.
          getGroup (window_heap s' w) \<in> set (groups s')
          \<and> getGroup (window_heap s' w) \<notin> set (groups s)
          \<and> next_group s \<le> getGroup (window_heap s' w)
          \<and> group_windows (group_heap s' (getGroup (window_heap s' w))) = [w])
    \<and> (\<forall>x\<in>set (groups s). x \<noteq> g \<longrightarrow>
          x \<in> set (groups s') \<and> group_heap s' x = group_heap s x)
    \<and> length (groups s') + 1 = length (groups s) + group_length s g"
    unfolding exploded_def using fresh by blast
  then show ?thesis unfolding s'_def .
qed

theorem explodeGroup_singletons_witness:
  "group_windows (group_heap example_service 0) = [0, 1, 3]
   \<and> groups example_service = [0, 1]
   \<and> groups (explodeGroup example_distance \<lparr>uuid = ''app'', name = ''a''\<rparr> example_service)
       = [1, 2, 3, 4]
   \<and> 0 \<notin> set (groups (explodeGroup example_distance \<lparr>uuid = ''app'', name = ''a''\<rparr>
        example_service))
   \<and> group_windows (group_heap
        (explodeGroup example_distance \<lparr>uuid = ''app'', name = ''a''\<rparr> example_service)
        (getGroup (window_heap
           (explodeGroup example_distance \<lparr>uuid = ''app'', name = ''a''\<rparr> example_service) 3)))
       = [3]"
proof -
  have many: "group_length example_service 0 > 1" by (simp add: example_group_0)
  have gs: "groups example_service = [0, 1]" by (simp add: example_defs)
  have m: "3 \<in> set (group_windows (group_heap example_service 0))"
    by (simp add: example_group_0)
  note t = explodeGroup_singletons [OF example_consistent example_target_a many,
    of example_distance]
  from t have "0 \<notin> set (groups (explodeGroup example_distance
      \<lparr>uuid = ''app'', name = ''a''\<rparr> example_service))" by (rule conjunct1)
  moreover from t m have "group_windows (group_heap
        (explodeGroup example_distance \<lparr>uuid = ''app'', name = ''a''\<rparr> example_service)
        (getGroup (window_heap
           (explodeGroup example_distance \<lparr>uuid = ''app'', name = ''a''\<rparr> example_service) 3)))
       = [3]" by blast
  ultimately show ?thesis using example_group_0 gs example_explode_groups by blast
qed

section \<open>The loop of a commit\<close>

lemma group_windows_call_handler [simp]:
  "group_windows (group_heap (call_handler h g w s) x) = group_windows (group_heap s x)"
  by (cases h) (simp_all add: validateGroup_def)

lemma group_windows_emit [simp]:
  "group_windows (group_heap (emit hs g w s) x) = group_windows (group_heap s x)"
  unfolding emit_def by (induction hs arbitrary: s) simp_all

lemma group_windows_setGroup:
  "group_windows (group_heap (setGroup w g2 off hs s) x) =
     (if x = g2 then
        (if getGroup (window_heap s w) = g2
         then remove1 w (group_windows (group_heap s g2))
         else group_windows (group_heap s g2)) @ [w]
      else if x = getGroup (window_heap s w)
        then remove1 w (group_windows (group_heap s x))
        else group_windows (group_heap s x))"
  by (simp add: setGroup_stages)

lemma fold_remove1_prefix: "fold remove1 xs (xs @ ys) = ys"
  by (induction xs) simp_all

lemma window_heap_apply_to_window:
  "window_heap (apply_to_window t w s) =
     (window_heap s)(w := (window_heap s w)\<lparr>getGroup := target_group t,
        getState := transformState (Some (snapOffset t))
          (if w = activeWindow t then target_halfSize t else None)
          (getState (window_heap s w))\<rparr>)"
  by (auto simp: apply_to_window_def window_heap_setGroup)

lemma window_heap_fold_apply_other:
  "v \<notin> set vs \<Longrightarrow> window_heap (fold (apply_to_window t) vs s) v = window_heap s v"
  by (induction vs arbitrary: s) (simp_all add: window_heap_apply_to_window)

lemma group_windows_apply_to_window:
  "group_windows (group_heap (apply_to_window t w s) x) =
     group_windows (group_heap (setGroup w (target_group t) None None s) x)"
  by (simp add: apply_to_window_def group_windows_setGroup)

lemma fold_apply_to_window:
  "distinct vs \<Longrightarrow> \<forall>v\<in>set vs. getGroup (window_heap s v) = a \<Longrightarrow> target_group t \<noteq> a \<Longrightarrow>
   (\<forall>w\<in>set vs. window_heap (fold (apply_to_window t) vs s) w =
       (window_heap s w)\<lparr>getGroup := target_group t,
          getState := transformState (Some (snapOffset t))
            (if w = activeWindow t then target_halfSize t else None)
            (getState (window_heap s w))\<rparr>)
   \<and> group_windows (group_heap (fold (apply_to_window t) vs s) (target_group t)) =
       group_windows (group_heap s (target_group t)) @ vs
   \<and> group_windows (group_heap (fold (apply_to_window t) vs s) a) =
       fold remove1 vs (group_windows (group_heap s a))"
proof (induction vs arbitrary: s)
  case Nil
  show ?case by simp
next
  case (Cons v vs)
  define s1 where "s1 = apply_to_window t v s"
  have wh1: "window_heap s1 = (window_heap s)(v := (window_heap s v)\<lparr>getGroup := target_group t,
        getState := transformState (Some (snapOffset t))
          (if v = activeWindow t then target_halfSize t else None)
          (getState (window_heap s v))\<rparr>)"
    unfolding s1_def by (rule window_heap_apply_to_window)
  from Cons.prems have vn: "v \<notin> set vs" and d: "distinct vs"
    and bv: "getGroup (window_heap s v) = a" by simp_all
  have b1: "\<forall>u\<in>set vs. getGroup (window_heap s1 u) = a"
    using Cons.prems(2) vn by (auto simp: wh1)
  have lt: "group_windows (group_heap s1 (target_group t)) =
      group_windows (group_heap s (target_group t)) @ [v]"
    using Cons.prems(3) by (simp add: s1_def group_windows_apply_to_window group_windows_setGroup bv)
  have la: "group_windows (group_heap s1 a) = remove1 v (group_windows (group_heap s a))"
    using Cons.prems(3) by (simp add: s1_def group_windows_apply_to_window group_windows_setGroup bv)
  note ih = Cons.IH [OF d b1 Cons.prems(3)]
  have f: "fold (apply_to_window t) (v # vs) s = fold (apply_to_window t) vs s1"
    by (simp add: s1_def)
  have 1: "\<forall>w\<in>set (v # vs). window_heap (fold (apply_to_window t) vs s1) w =
       (window_heap s w)\<lparr>getGroup := target_group t,
          getState := transformState (Some (snapOffset t))
            (if w = activeWindow t then target_halfSize t else None)
            (getState (window_heap s w))\<rparr>"
  proof
    fix w assume w: "w \<in> set (v # vs)"
    show "window_heap (fold (apply_to_window t) vs s1) w =
       (window_heap s w)\<lparr>getGroup := target_group t,
          getState := transformState (Some (snapOffset t))
            (if w = activeWindow t then target_halfSize t else None)
            (getState (window_heap s w))\<rparr>"
    proof (cases "w = v")
      case True
      then show ?thesis using vn by (simp add: window_heap_fold_apply_other wh1)
    next
      case False
      with w have "w \<in> set vs" by simp
      with ih have "window_heap (fold (apply_to_window t) vs s1) w =
       (window_heap s1 w)\<lparr>getGroup := target_group t,
          getState := transformState (Some (snapOffset t))
            (if w = activeWindow t then target_halfSize t else None)
            (getState (window_heap s1 w))\<rparr>" by blast
      with False show ?thesis by (simp add: wh1)
    qed
  qed
  have 2: "group_windows (group_heap (fold (apply_to_window t) vs s1) (target_group t)) =
       group_windows (group_heap s (target_group t)) @ v # vs"
    using ih by (simp add: lt)
  have 3: "group_windows (group_heap (fold (apply_to_window t) vs s1) a) =
       fold remove1 (v # vs) (group_windows (group_heap s a))"
    using ih by (simp add: la)
  show ?case unfolding f using 1 2 3 by blast
qed

section \<open>A valid commit moves the whole active group\<close>

text \<open>
  C3, as amended: when the target that \<^verbatim>\<open>applySnapTarget\<close> gets from the resolver is
  VALID and the flag \<^verbatim>\<open>foo\<close> of the global \<^verbatim>\<open>window\<close> object is not set, every window
  of the active group is given to \<^verbatim>\<open>setGroup\<close> with the target's group and offset, and
  the anchor window with the target's half size as well: afterwards each of them refers
  to the target's group, its rectangle is the old one transformed by the offset (and, for
  the anchor, the half size), the target's group lists them after its own windows, in
  their order, and the active group lists nothing.
\<close>

theorem applySnapTarget_valid_commit:
  assumes r: "getSnapTarget s (groups s) activeGroup = Some t"
    and v: "validity t = VALID"
    and nf: "\<not> foo"
    and d: "distinct (group_windows (group_heap s activeGroup))"
    and b: "\<forall>w\<in>set (group_windows (group_heap s activeGroup)).
              getGroup (window_heap s w) = activeGroup"
    and ne: "target_group t \<noteq> activeGroup"
  shows "(\<forall>w\<in>set (group_windows (group_heap s activeGroup)).
            window_heap (applySnapTarget getSnapTarget foo activeGroup s) w =
              (window_heap s w)\<lparr>getGroup := target_group t,
                 getState := transformState (Some (snapOffset t))
                   (if w = activeWindow t then target_halfSize t else None)
                   (getState (window_heap s w))\<rparr>)
       \<and> group_windows (group_heap (applySnapTarget getSnapTarget foo activeGroup s)
             (target_group t)) =
           group_windows (group_heap s (target_group t))
           @ group_windows (group_heap s activeGroup)
       \<and> group_windows (group_heap (applySnapTarget getSnapTarget foo activeGroup s)
             activeGroup) = []"
proof -
  let ?ws = "group_windows (group_heap s activeGroup)"
  define s' where "s' = fold (apply_to_window t) ?ws s"
  have eq: "applySnapTarget getSnapTarget foo activeGroup s = s'\<lparr>view := (None, None)\<rparr>"
    using v nf by (simp add: applySnapTarget_def r s'_def)
  note f = fold_apply_to_window [OF d b ne]
  have "fold remove1 ?ws (?ws @ []) = []" by (rule fold_remove1_prefix)
  then have e: "fold remove1 ?ws ?ws = []" by simp
  show ?thesis
    unfolding eq using f e by (simp add: s'_def)
qed

text \<open>
  On the example: group 0 lists the windows 0, 1 and 3 and is committed to group 1 with
  window 1 as the anchor. The loop goes three rounds: windows 0 and 3 are moved by the
  offset and keep their size, window 1 is moved by the offset and takes the target's half
  size, and group 1 lists all three after its own window 2.
\<close>

theorem applySnapTarget_valid_commit_witness:
  "group_windows (group_heap example_service 0) = [0, 1, 3]
   \<and> activeWindow example_group_target = 1
   \<and> window_heap (applySnapTarget (\<lambda>s gs g. Some example_group_target) False 0
         example_service) 0
       = \<lparr>getIdentity = \<lparr>uuid = ''app'', name = ''a''\<rparr>, getGroup = 1,
          getState = \<lparr>center = \<lparr>px = 5, py = 5\<rparr>, halfSize = \<lparr>px = 10, py = 10\<rparr>\<rparr>\<rparr>
   \<and> window_heap (applySnapTarget (\<lambda>s gs g. Some example_group_target) False 0
         example_service) 1
       = \<lparr>getIdentity = \<lparr>uuid = ''app'', name = ''b''\<rparr>, getGroup = 1,
          getState = \<lparr>center = \<lparr>px = 25, py = 5\<rparr>, halfSize = \<lparr>px = 12, py = 10\<rparr>\<rparr>\<rparr>
   \<and> window_heap (applySnapTarget (\<lambda>s gs g. Some example_group_target) False 0
         example_service) 3
       = \<lparr>getIdentity = \<lparr>uuid = ''app'', name = ''d''\<rparr>, getGroup = 1,
          getState = \<lparr>center = \<lparr>px = 5, py = 205\<rparr>, halfSize = \<lparr>px = 10, py = 10\<rparr>\<rparr>\<rparr>
   \<and> group_windows (group_heap
         (applySnapTarget (\<lambda>s gs g. Some example_group_target) False 0 example_service) 1)
       = [2, 0, 1, 3]
   \<and> group_windows (group_heap
         (applySnapTarget (\<lambda>s gs g. Some example_group_target) False 0 example_service) 0)
       = []"
proof -
  let ?s' = "applySnapTarget (\<lambda>s gs g. Some example_group_target) False 0 example_service"
  have l1: "group_windows (group_heap example_service 1) = [2]" by (simp add: example_defs)
  have aw: "activeWindow example_group_target = 1" by (simp add: example_group_target_def)
  have tg: "target_group example_group_target = 1" by (simp add: example_group_target_def)
  have r: "(\<lambda>s gs g. Some example_group_target) example_service (groups example_service) 0
      = Some example_group_target" by simp
  have v: "validity example_group_target = VALID" by (simp add: example_group_target_def)
  have nf: "\<not> False" by simp
  have d: "distinct (group_windows (group_heap example_service 0))"
    unfolding example_group_0 by simp
  have b: "\<forall>w\<in>set (group_windows (group_heap example_service 0)).
              getGroup (window_heap example_service w) = 0"
    unfolding example_group_0 by (simp add: example_defs)
  have ne: "target_group example_group_target \<noteq> 0" by (simp add: example_group_target_def)
  note t = applySnapTarget_valid_commit [OF r v nf d b ne]
  have each: "window_heap ?s' w =
      (window_heap example_service w)\<lparr>getGroup := target_group example_group_target,
         getState := transformState (Some (snapOffset example_group_target))
           (if w = activeWindow example_group_target
            then target_halfSize example_group_target else None)
           (getState (window_heap example_service w))\<rparr>"
    if "w \<in> set (group_windows (group_heap example_service 0))" for w
    using t that by blast
  have m0: "0 \<in> set (group_windows (group_heap example_service 0))"
    unfolding example_group_0 by simp
  have m1: "1 \<in> set (group_windows (group_heap example_service 0))"
    unfolding example_group_0 by simp
  have m3: "3 \<in> set (group_windows (group_heap example_service 0))"
    unfolding example_group_0 by simp
  have a0: "window_heap ?s' 0
       = \<lparr>getIdentity = \<lparr>uuid = ''app'', name = ''a''\<rparr>, getGroup = 1,
          getState = \<lparr>center = \<lparr>px = 5, py = 5\<rparr>, halfSize = \<lparr>px = 10, py = 10\<rparr>\<rparr>\<rparr>"
    unfolding each [OF m0]
    by (simp add: example_defs example_group_target_def transformState_def translate_def)
  have a1: "window_heap ?s' 1
       = \<lparr>getIdentity = \<lparr>uuid = ''app'', name = ''b''\<rparr>, getGroup = 1,
          getState = \<lparr>center = \<lparr>px = 25, py = 5\<rparr>, halfSize = \<lparr>px = 12, py = 10\<rparr>\<rparr>\<rparr>"
    unfolding each [OF m1]
    by (simp add: example_defs example_group_target_def transformState_def translate_def)
  have a3: "window_heap ?s' 3
       = \<lparr>getIdentity = \<lparr>uuid = ''app'', name = ''d''\<rparr>, getGroup = 1,
          getState = \<lparr>center = \<lparr>px = 5, py = 205\<rparr>, halfSize = \<lparr>px = 10, py = 10\<rparr>\<rparr>\<rparr>"
    unfolding each [OF m3]
    by (simp add: example_defs example_group_target_def transformState_def translate_def)
  from t have "group_windows (group_heap ?s' (target_group example_group_target)) =
      group_windows (group_heap example_service (target_group example_group_target))
      @ group_windows (group_heap example_service 0)" by blast
  then have a4: "group_windows (group_heap ?s' 1) = [2, 0, 1, 3]"
    unfolding tg l1 example_group_0 by simp
  from t have a5: "group_windows (group_heap ?s' 0) = []" by blast
  from example_group_0 aw a0 a1 a3 a4 a5 show ?thesis by blast
qed

text \<open>
  The statement of C3 for every commit with a VALID target fails: with the flag
  \<^verbatim>\<open>foo\<close> set, \<^verbatim>\<open>applySnapTarget\<close> leaves window 2 of the active group 1 in its group and
  where it was, although the target is VALID and names group 0.
\<close>

theorem applySnapTarget_flag_counterexample:
  "validity example_target = VALID
   \<and> target_group example_target = 0
   \<and> group_windows (group_heap example_service 1) = [2]
   \<and> getGroup (window_heap
        (applySnapTarget (\<lambda>s gs g. Some example_target) True 1 example_service) 2) = 1
   \<and> applySnapTarget (\<lambda>s gs g. Some example_target) True 1 example_service
       = example_service\<lparr>view := (None, None)\<rparr>"
  by (simp add: applySnapTarget_def example_target_def example_defs)

section \<open>Admission, close and the reachable states\<close>

lemma invariant_addWindow:
  assumes c: "consistent s" and n: "groups_nonempty s"
    and fresh: "\<forall>g\<in>set (groups s). w \<notin> set (group_windows (group_heap s g))"
  shows "consistent (addWindow w identity st s) \<and> groups_nonempty (addWindow w identity st s)"
proof -
  define ng where "ng = next_group s"
  define sa where "sa = snd (addGroup s)"
  define s1 where "s1 = sa\<lparr>window_heap := (window_heap sa)
      (w := \<lparr>getIdentity = identity, getGroup = ng, getState = st\<rparr>)\<rparr>"
  define s2 where "s2 = link_window w ng s1"
  define s3 where "s3 = emit (onWindowAdded (group_heap s2 ng)) ng w s2"
  have eq: "addWindow w identity st s = s3\<lparr>windows := windows s3 @ [w]\<rparr>"
    by (simp add: addWindow_def new_SnapWindow_def Let_def case_prod_unfold
        s3_def s2_def s1_def sa_def ng_def)
  have ca: "consistent sa" unfolding sa_def using c by (rule consistent_addGroup)
  have fa: "w \<notin> set (group_windows (group_heap sa g))" if "g \<in> set (groups sa)" for g
    using that fresh by (auto simp: sa_def wired_def)
  have c1: "consistent s1"
  proof (rule consistentI)
    show "distinct (groups s1)" using ca by (simp add: s1_def consistent_distinct)
  next
    fix g assume "g \<in> set (groups s1)"
    then have g: "g \<in> set (groups sa)" by (simp add: s1_def)
    show "g < next_group s1" using consistentD(1) [OF ca g] by (simp add: s1_def)
    show "wired_group (group_heap s1 g)" using consistentD(2) [OF ca g] by (simp add: s1_def)
    show "distinct (group_windows (group_heap s1 g))"
      using consistentD(3) [OF ca g] by (simp add: s1_def)
  next
    fix g v assume "g \<in> set (groups s1)" and "v \<in> set (group_windows (group_heap s1 g))"
    then have g: "g \<in> set (groups sa)" and v: "v \<in> set (group_windows (group_heap sa g))"
      by (simp_all add: s1_def)
    with fa have "v \<noteq> w" by blast
    then show "getGroup (window_heap s1 v) = g"
      using consistentD(4) [OF ca g v] by (simp add: s1_def)
  qed
  have b1: "getGroup (window_heap s1 w) = ng" by (simp add: s1_def)
  have f1: "w \<notin> set (group_windows (group_heap s1 g))" if "g \<in> set (groups s1)" for g
    using that fa [of g] by (simp add: s1_def)
  have c2: "consistent s2" unfolding s2_def using c1 b1 f1 by (rule consistent_link)
  have n2: "groups_nonempty s2"
    unfolding groups_nonempty_def
  proof
    fix g assume "g \<in> set (groups s2)"
    then have "g \<in> set (groups s) \<or> g = ng" by (auto simp: s2_def s1_def sa_def ng_def)
    then show "group_windows (group_heap s2 g) \<noteq> []"
    proof
      assume g: "g \<in> set (groups s)"
      then have "g \<noteq> ng" using consistentD(1) [OF c g] by (simp add: ng_def)
      then have "group_windows (group_heap s2 g) = group_windows (group_heap s g)"
        by (simp add: s2_def s1_def sa_def ng_def)
      with n g show ?thesis by (simp add: groups_nonempty_def)
    next
      assume "g = ng"
      then show ?thesis by (simp add: s2_def)
    qed
  qed
  have sh: "shrinks s2 s3"
    unfolding s3_def using c2 by (intro shrinks_emit consistent_distinct)
  have "consistent s3" using sh c2 by (rule shrinks_consistent)
  moreover have "groups_nonempty s3" using sh n2 by (rule shrinks_nonempty)
  ultimately show ?thesis
    unfolding eq by (simp add: consistent_def groups_nonempty_def)
qed

lemma invariant_close_window:
  assumes c: "consistent s" and n: "groups_nonempty s"
  shows "consistent (close_window w s) \<and> groups_nonempty (close_window w s)"
proof -
  define g where "g = getGroup (window_heap s w)"
  define s1 where "s1 = s\<lparr>group_heap := (group_heap s)
      (g := (group_heap s g)\<lparr>group_windows := remove1 w (group_windows (group_heap s g))\<rparr>)\<rparr>"
  define s2 where "s2 = emit (onWindowRemoved (group_heap s1 g)) g w s1"
  have eq1: "SnapGroup_onWindowClosed w s = s2"
    by (simp add: SnapGroup_onWindowClosed_def Let_def s2_def s1_def g_def)
  have c1: "consistent s1"
  proof (rule consistentI)
    show "distinct (groups s1)" using c by (simp add: s1_def consistent_distinct)
  next
    fix x assume "x \<in> set (groups s1)"
    then have x: "x \<in> set (groups s)" by (simp add: s1_def)
    show "x < next_group s1" using consistentD(1) [OF c x] by (simp add: s1_def)
    show "wired_group (group_heap s1 x)" using consistentD(2) [OF c x] by (auto simp: s1_def)
    show "distinct (group_windows (group_heap s1 x))"
      using consistentD(3) [OF c x] by (auto simp: s1_def)
  next
    fix x v assume "x \<in> set (groups s1)" and v: "v \<in> set (group_windows (group_heap s1 x))"
    then have x: "x \<in> set (groups s)" by (simp add: s1_def)
    have "v \<in> set (group_windows (group_heap s x))"
      using v set_remove1_subset [of w "group_windows (group_heap s x)"]
      by (auto simp: s1_def split: if_splits)
    then show "getGroup (window_heap s1 v) = x"
      using consistentD(4) [OF c x] by (simp add: s1_def)
  qed
  have sh: "shrinks s1 s2"
    unfolding s2_def using c1 by (intro shrinks_emit consistent_distinct)
  have c2: "consistent s2" using sh c1 by (rule shrinks_consistent)
  have n2: "groups_nonempty s2"
    unfolding groups_nonempty_def
  proof
    fix x assume x2: "x \<in> set (groups s2)"
    from sh have "set (groups s2) \<subseteq> set (groups s1)"
      and l: "group_windows (group_heap s2 x) = group_windows (group_heap s1 x)"
      by (simp_all add: shrinks_def)
    with x2 have x1: "x \<in> set (groups s1)" by blast
    then have x: "x \<in> set (groups s)" by (simp add: s1_def)
    show "group_windows (group_heap s2 x) \<noteq> []"
    proof (cases "x = g")
      case False
      then have "group_windows (group_heap s1 x) = group_windows (group_heap s x)"
        by (simp add: s1_def)
      with n x l show ?thesis by (simp add: groups_nonempty_def)
    next
      case True
      show ?thesis
      proof
        assume e: "group_windows (group_heap s2 x) = []"
        have "g \<notin> set (groups s2)"
          unfolding s2_def
        proof (rule removed_when_empty)
          show "distinct (groups s1)" using c1 by (rule consistent_distinct)
          show "g \<in> set (groups s1)" using x1 True by simp
          then show "wired_group (group_heap s1 g)" using c1 by (intro consistentD(2))
          show "group_length s1 g = 0" using e l True by simp
        qed
        with x2 True show False by simp
      qed
    qed
  qed
  have "consistent (onWindowClosed w s2) \<and> groups_nonempty (onWindowClosed w s2)"
    using c2 n2
    by (simp add: onWindowClosed_def validateGroup_def consistent_def groups_nonempty_def)
  then show ?thesis by (simp add: close_window_def eq1)
qed

lemma invariant_snapGroup:
  "consistent s \<and> groups_nonempty s \<Longrightarrow>
   consistent (snapGroup getSnapTarget activeGroup s)
   \<and> groups_nonempty (snapGroup getSnapTarget activeGroup s)"
  by (simp add: snapGroup_def Let_def)

lemma reachable_invariant: "reachable s \<Longrightarrow> consistent s \<and> groups_nonempty s"
proof (induction rule: reachable.induct)
  case (r_start s)
  then show ?case by (simp add: consistent_def groups_nonempty_def)
next
  case (r_addWindow s w identity st)
  then show ?case by (intro invariant_addWindow) simp_all
next
  case (r_undock s distanceFn target)
  then show ?case by (intro invariant_undock) simp_all
next
  case (r_explodeGroup s distanceFn target)
  then show ?case by (intro invariant_explodeGroup) simp_all
next
  case (r_snapGroup s getSnapTarget activeGroup)
  then show ?case by (intro invariant_snapGroup)
next
  case (r_applySnapTarget s getSnapTarget foo activeGroup)
  then show ?case by (intro invariant_applySnapTarget) simp_all
next
  case (r_close s w)
  then show ?case by (intro invariant_close_window) simp_all
qed

section \<open>No registered group is empty\<close>

text \<open>
  C1: no registered group is empty. When \<^verbatim>\<open>onWindowRemovedFromGroup\<close> is told of a
  registered group that has no window left, the group leaves the registry and all its
  listeners are detached; \<^verbatim>\<open>removeGroup\<close> leaves a group that still has windows alone;
  when \<^verbatim>\<open>setGroup\<close> takes the last window out of a registered group, the group is out of
  the registry when the call returns; and \<^verbatim>\<open>undock\<close>, \<^verbatim>\<open>explodeGroup\<close> and
  \<^verbatim>\<open>applySnapTarget\<close> take a consistent registry without empty groups to a
  consistent registry without empty groups. So every state that the service reaches from
  empty registries by admissions, undocks, explodes, drags, commits and closes has a
  consistent registry without empty groups. (Within a call, the group that \<^verbatim>\<open>addGroup\<close>
  has just registered is empty until the window is attached to it.)
\<close>

theorem registered_groups_nonempty:
  "(distinct (groups s) \<and> g \<in> set (groups s) \<and> wired_group (group_heap s g)
      \<and> group_length s g = 0
     \<longrightarrow> g \<notin> set (groups (onWindowRemovedFromGroup g w s))
       \<and> unwired_group (group_heap (onWindowRemovedFromGroup g w s) g))
   \<and> (group_length s g \<noteq> 0 \<longrightarrow> removeGroup g s = s)
   \<and> (consistent s \<and> g \<in> set (groups s) \<and> getGroup (window_heap s w) = g
      \<and> group_windows (group_heap s g) = [w]
     \<longrightarrow> g \<notin> set (groups (setGroup w newGroup off hs s)))
   \<and> (consistent s \<and> groups_nonempty s
     \<longrightarrow> consistent (undock distanceFn target s)
       \<and> groups_nonempty (undock distanceFn target s)
       \<and> consistent (explodeGroup distanceFn target s)
       \<and> groups_nonempty (explodeGroup distanceFn target s)
       \<and> consistent (applySnapTarget getSnapTarget foo activeGroup s)
       \<and> groups_nonempty (applySnapTarget getSnapTarget foo activeGroup s))
   \<and> (reachable s \<longrightarrow> consistent s \<and> groups_nonempty s)"
proof (intro conjI impI; (elim conjE)?)
  assume d: "distinct (groups s)" and g: "g \<in> set (groups s)"
    and wi: "wired_group (group_heap s g)" and e: "group_length s g = 0"
  have eq: "onWindowRemovedFromGroup g w s = emit (onWindowRemoved (group_heap s g)) g w s"
    using wi by (simp add: emit_removed_wired)
  show "g \<notin> set (groups (onWindowRemovedFromGroup g w s))"
    unfolding eq using d g wi e by (rule removed_when_empty)
  show "unwired_group (group_heap (onWindowRemovedFromGroup g w s) g)"
    unfolding eq using d g wi e by (rule removed_when_empty)
next
  assume "group_length s g \<noteq> 0"
  then show "removeGroup g s = s" by (simp add: removeGroup_def)
next
  assume "consistent s" and "g \<in> set (groups s)" and "getGroup (window_heap s w) = g"
    and "group_windows (group_heap s g) = [w]"
  then show "g \<notin> set (groups (setGroup w newGroup off hs s))"
    by (rule setGroup_last_window_removes_group)
next
  assume c: "consistent s" and n: "groups_nonempty s"
  show "consistent (undock distanceFn target s)"
    using invariant_undock [OF c n] by blast
  show "groups_nonempty (undock distanceFn target s)"
    using invariant_undock [OF c n] by blast
  show "consistent (explodeGroup distanceFn target s)"
    using invariant_explodeGroup [OF c n] by blast
  show "groups_nonempty (explodeGroup distanceFn target s)"
    using invariant_explodeGroup [OF c n] by blast
  show "consistent (applySnapTarget getSnapTarget foo activeGroup s)"
    using invariant_applySnapTarget [OF c n] by blast
  show "groups_nonempty (applySnapTarget getSnapTarget foo activeGroup s)"
    using invariant_applySnapTarget [OF c n] by blast
next
  assume r: "reachable s"
  show "consistent s" using reachable_invariant [OF r] by blast
  show "groups_nonempty s" using reachable_invariant [OF r] by blast
qed

theorem registered_groups_nonempty_witness:
  "consistent example_service \<and> groups_nonempty example_service
   \<and> group_windows (group_heap example_service 1) = [2]
   \<and> removeGroup 1 example_service = example_service
   \<and> group_windows (group_heap (snd (addGroup example_service)) 2) = []
   \<and> 2 \<in> set (groups (snd (addGroup example_service)))
   \<and> 2 \<notin> set (groups (onWindowRemovedFromGroup 2 0 (snd (addGroup example_service))))
   \<and> unwired_group (group_heap
         (onWindowRemovedFromGroup 2 0 (snd (addGroup example_service))) 2)
   \<and> 1 \<notin> set (groups (setGroup 2 0 None None example_service))
   \<and> groups_nonempty (undock example_distance \<lparr>uuid = ''app'', name = ''c''\<rparr> example_service)
   \<and> groups_nonempty (explodeGroup example_distance \<lparr>uuid = ''app'', name = ''a''\<rparr>
        example_service)
   \<and> groups_nonempty (applySnapTarget (\<lambda>s gs g. Some \<lparr>target_group = 0, activeWindow = 2,
          snapOffset = \<lparr>px = 5, py = 5\<rparr>, target_halfSize = None, validity = VALID\<rparr>)
        False 1 example_service)
   \<and> reachable (addWindow 0 \<lparr>uuid = ''app'', name = ''a''\<rparr>
        \<lparr>center = \<lparr>px = 0, py = 0\<rparr>, halfSize = \<lparr>px = 10, py = 10\<rparr>\<rparr> example_start)
   \<and> groups_nonempty (addWindow 0 \<lparr>uuid = ''app'', name = ''a''\<rparr>
        \<lparr>center = \<lparr>px = 0, py = 0\<rparr>, halfSize = \<lparr>px = 10, py = 10\<rparr>\<rparr> example_start)"
proof -
  have "reachable example_start"
    by (rule r_start) (simp_all add: example_start_def)
  then have re: "reachable (addWindow 0 \<lparr>uuid = ''app'', name = ''a''\<rparr>
        \<lparr>center = \<lparr>px = 0, py = 0\<rparr>, halfSize = \<lparr>px = 10, py = 10\<rparr>\<rparr> example_start)"
    by (rule r_addWindow) (simp add: example_start_def)
  with registered_groups_nonempty [of "addWindow 0 \<lparr>uuid = ''app'', name = ''a''\<rparr>
        \<lparr>center = \<lparr>px = 0, py = 0\<rparr>, halfSize = \<lparr>px = 10, py = 10\<rparr>\<rparr> example_start"]
  have rn: "groups_nonempty (addWindow 0 \<lparr>uuid = ''app'', name = ''a''\<rparr>
        \<lparr>center = \<lparr>px = 0, py = 0\<rparr>, halfSize = \<lparr>px = 10, py = 10\<rparr>\<rparr> example_start)"
    by blast
  have l: "group_windows (group_heap example_service 1) = [2]" by (simp add: example_defs)
  have g: "1 \<in> set (groups example_service)" by (simp add: example_defs)
  have b: "getGroup (window_heap example_service 2) = 1" by (simp add: example_defs)
  have len: "group_length example_service 1 \<noteq> 0" unfolding l by simp
  note t = registered_groups_nonempty [of example_service 1 2 0 None None example_distance _
     _ _ 1]
  note a = t [of "\<lparr>uuid = ''app'', name = ''a''\<rparr>" "\<lambda>s gs g. Some \<lparr>target_group = 0,
          activeWindow = 2, snapOffset = \<lparr>px = 5, py = 5\<rparr>, target_halfSize = None,
          validity = VALID\<rparr>" False]
  note c = t [of "\<lparr>uuid = ''app'', name = ''c''\<rparr>" "\<lambda>s gs g. None" False]
  have e1: "distinct (groups (snd (addGroup example_service)))"
    by (simp add: example_defs)
  have e2: "2 \<in> set (groups (snd (addGroup example_service)))"
    by (simp add: example_defs)
  have e3: "wired_group (group_heap (snd (addGroup example_service)) 2)"
    by (simp add: example_defs wired_group_def)
  have e4: "group_windows (group_heap (snd (addGroup example_service)) 2) = []"
    by (simp add: example_defs)
  have e5: "group_length (snd (addGroup example_service)) 2 = 0"
    unfolding e4 by simp
  note e = registered_groups_nonempty [of "snd (addGroup example_service)" 2 0]
  from e e1 e2 e3 e5
  have r1: "2 \<notin> set (groups (onWindowRemovedFromGroup 2 0 (snd (addGroup example_service))))"
    by blast
  from e e1 e2 e3 e5
  have r2: "unwired_group (group_heap
         (onWindowRemovedFromGroup 2 0 (snd (addGroup example_service))) 2)"
    by blast
  from a len have "removeGroup 1 example_service = example_service" by blast
  moreover from a example_consistent g b l
  have "1 \<notin> set (groups (setGroup 2 0 None None example_service))" by blast
  moreover from c example_consistent example_nonempty
  have "groups_nonempty (undock example_distance \<lparr>uuid = ''app'', name = ''c''\<rparr>
      example_service)" by blast
  moreover from a example_consistent example_nonempty
  have "groups_nonempty (explodeGroup example_distance \<lparr>uuid = ''app'', name = ''a''\<rparr>
        example_service)" by blast
  moreover from a example_consistent example_nonempty
  have "groups_nonempty (applySnapTarget (\<lambda>s gs g. Some \<lparr>target_group = 0, activeWindow = 2,
          snapOffset = \<lparr>px = 5, py = 5\<rparr>, target_halfSize = None, validity = VALID\<rparr>)
        False 1 example_service)" by blast
  ultimately show ?thesis
    using example_consistent example_nonempty l e2 e4 r1 r2 re rn by blast
qed

end
